theory Spec2Isabelle
  imports Complex_Main
begin

section \<open>JavaScript values used by the application\<close>

subsection \<open>Numbers\<close>

text \<open>
  A JavaScript number is a double, a 64-bit binary floating-point value: \<open>NaN\<close>, one of
  the two infinities, or a finite double, held by its exact rational value. The two zeros
  are one value, \<open>Num 0\<close>: the operations of the application that read a number
  (\<open>+=\<close> on an accumulator that starts at \<open>0\<close>, \<open>>\<close>, \<open>||\<close>, \<open>!\<close>) do not tell them
  apart.
\<close>

datatype jsnum = NaN | NegInf | Num rat | PosInf

fun js_neg :: "jsnum \<Rightarrow> jsnum" where
  "js_neg NaN = NaN"
| "js_neg NegInf = PosInf"
| "js_neg PosInf = NegInf"
| "js_neg (Num q) = Num (- q)"

text \<open>
  The result of an arithmetic operation, and the value of a decimal literal, is the double
  nearest to the exact value, the one with the even significand when two are equally near.
  A positive \<open>q\<close> with \<open>2^e \<le> q < 2^(e+1)\<close> is rounded to a multiple of \<open>2^(e-52)\<close>, a
  significand of 53 bits, and to a multiple of \<open>2^(-1074)\<close> when it is so small that
  \<open>e - 52\<close> would be below \<open>-1074\<close>. The greatest double is \<open>(2^53 - 1) * 2^971\<close>; a
  rounded value beyond it is the infinity.
\<close>

function floor_log2 :: "int \<Rightarrow> int" where
  "floor_log2 n = (if n < 2 then 0 else 1 + floor_log2 (n div 2))"
  by auto

termination floor_log2
  by (relation "measure nat") auto

declare floor_log2.simps [simp del]

definition pow2 :: "int \<Rightarrow> rat" where
  "pow2 e = (if 0 \<le> e then 2 ^ nat e else 1 / 2 ^ nat (- e))"

definition exponent_of :: "rat \<Rightarrow> int" where
  "exponent_of q =
     (let (p, d) = quotient_of q;
          c = floor_log2 p - floor_log2 d
      in if pow2 c \<le> q then c else c - 1)"

definition round_half_even :: "rat \<Rightarrow> int" where
  "round_half_even x =
     (let f = \<lfloor>x\<rfloor>; r = x - of_int f
      in if r < 1 / 2 then f
         else if 1 / 2 < r then f + 1
         else if even f then f else f + 1)"

definition round_positive :: "rat \<Rightarrow> jsnum" where
  "round_positive q =
     (let e = max (exponent_of q - 52) (- 1074);
          n = round_half_even (q / pow2 e)
      in if 971 < e \<or> (e = 971 \<and> n = 2 ^ 53) then PosInf
         else Num (of_int n * pow2 e))"

definition to_double :: "rat \<Rightarrow> jsnum" where
  "to_double q =
     (if q = 0 then Num 0
      else if 0 < q then round_positive q
      else js_neg (round_positive (- q)))"

text \<open>
  The operator \<open>+\<close> on numbers. It is neither associative nor exact: the order in which
  an accumulator receives its summands matters.
\<close>

instantiation jsnum :: "{zero, plus}"
begin

definition zero_jsnum :: jsnum where
  "zero_jsnum = Num 0"

fun plus_jsnum :: "jsnum \<Rightarrow> jsnum \<Rightarrow> jsnum" where
  "plus_jsnum NaN y = NaN"
| "plus_jsnum x NaN = NaN"
| "plus_jsnum (Num a) (Num b) = to_double (a + b)"
| "plus_jsnum PosInf NegInf = NaN"
| "plus_jsnum NegInf PosInf = NaN"
| "plus_jsnum PosInf y = PosInf"
| "plus_jsnum x PosInf = PosInf"
| "plus_jsnum NegInf y = NegInf"
| "plus_jsnum x NegInf = NegInf"

instance ..

end

text \<open>
  \<open>acc += x\<close> for each \<open>x\<close> of a list in turn, from the left: the value that the
  accumulator holds at the end.
\<close>

definition accumulate :: "jsnum \<Rightarrow> jsnum list \<Rightarrow> jsnum" where
  "accumulate acc xs = foldl (+) acc xs"

text \<open>The relational operator \<open>a > b\<close> on numbers: false as soon as one side is \<open>NaN\<close>.\<close>

fun js_gt :: "jsnum \<Rightarrow> jsnum \<Rightarrow> bool" where
  "js_gt NaN y = False"
| "js_gt x NaN = False"
| "js_gt (Num a) (Num b) = (b < a)"
| "js_gt PosInf PosInf = False"
| "js_gt PosInf y = True"
| "js_gt x PosInf = False"
| "js_gt NegInf y = False"
| "js_gt x NegInf = True"

text \<open>\<open>ToBoolean\<close> on a number: \<open>NaN\<close> and zero are falsy.\<close>

fun truthy_num :: "jsnum \<Rightarrow> bool" where
  "truthy_num NaN = False"
| "truthy_num (Num q) = (q \<noteq> 0)"
| "truthy_num x = True"

text \<open>The idiom \<open>x || 0\<close> on a number \<open>x\<close>.\<close>

definition or_zero :: "jsnum \<Rightarrow> jsnum" where
  "or_zero x = (if truthy_num x then x else Num 0)"

subsection \<open>Decimal rendering of a non-negative integer\<close>

definition digit_char :: "nat \<Rightarrow> char" where
  "digit_char n = ''0123456789'' ! (n mod 10)"

fun show_nat :: "nat \<Rightarrow> string" where
  "show_nat n = (if n < 10 then [digit_char n] else show_nat (n div 10) @ [digit_char n])"

declare show_nat.simps [simp del]

subsection \<open>Calendar dates\<close>

text \<open>
  Every date of the application is the value of an HTML date input, the text
  \<open>YYYY-MM-DD\<close> of a calendar day. It is modelled by its three numbers. \<open>new Date(s)\<close>
  of such a text is the instant of that day's midnight in UTC; \<open>Date_valueOf\<close> is its time
  value in milliseconds since 1970-01-01, the number that \<open>-\<close> and \<open>>\<close> compare.
\<close>

record iso_date =
  year :: nat
  month :: nat
  day :: nat

definition days_from_civil :: "iso_date \<Rightarrow> int" where
  "days_from_civil dt =
     (let y = int (year dt) - (if month dt \<le> 2 then 1 else 0);
          era = y div 400;
          yoe = y - era * 400;
          mp = (int (month dt) + 9) mod 12;
          doy = (153 * mp + 2) div 5 + int (day dt) - 1;
          doe = yoe * 365 + yoe div 4 - yoe div 100 + doy
      in era * 146097 + doe - 719468)"

definition Date_valueOf :: "iso_date \<Rightarrow> int" where
  "Date_valueOf dt = 86400000 * days_from_civil dt"

text \<open>
  \<open>toLocaleDateString('es-ES', {day: 'numeric', month: 'short'})\<close>: the day of the month
  and the abbreviated Spanish month name, without the year. The label is taken in the
  runtime's time zone; the model is for a zone at or east of UTC (Spain's among them),
  where UTC midnight falls on the same calendar day.
\<close>

definition month_short :: "nat \<Rightarrow> string" where
  "month_short m =
     [''ene'', ''feb'', ''mar'', ''abr'', ''may'', ''jun'',
      ''jul'', ''ago'', ''sept'', ''oct'', ''nov'', ''dic''] ! ((m - 1) mod 12)"

definition toLocaleDateString :: "iso_date \<Rightarrow> string" where
  "toLocaleDateString dt = show_nat (day dt) @ '' '' @ month_short (month dt)"

section \<open>Data model\<close>

text \<open>
  The documents of the two collections. A record is parametric in how its date is held:
  the submission forms write the text of the date input, the dashboard reads the date
  through \<open>new Date\<close>. The identifier that the store adds to each document of a snapshot is
  read by no function modelled here and is left out.
\<close>

record stored =
  line :: nat
  createdAt :: string

record 'd DailyReading = stored +
  date :: 'd
  waterConsumption :: jsnum
  oilConsumptionTotal :: jsnum
  oilConsumptionPartial :: jsnum

record reading =
  machineId :: nat
  consumption :: jsnum

record 'd WeeklyReading = stored +
  weekStartDate :: 'd
  readings :: "reading list"

section \<open>Dashboard: the daily trailing-window aggregate\<close>

record named =
  name :: string

record chart_row = named +
  Agua_L1 :: jsnum
  Agua_L2 :: jsnum
  Aceite_L1 :: jsnum
  Aceite_L2 :: jsnum

text \<open>
  \<open>aggregatedData\<close> is an object whose keys are the labels. No label is an array index,
  so \<open>Object.values\<close> lists the rows in the order in which their keys were created: the
  object is an association list that grows at its end.
\<close>

type_synonym aggregated = "(string \<times> chart_row) list"

definition new_row :: "string \<Rightarrow> chart_row" where
  "new_row dateKey =
     \<lparr>name = dateKey, Agua_L1 = 0, Agua_L2 = 0, Aceite_L1 = 0, Aceite_L2 = 0\<rparr>"

fun modify :: "string \<Rightarrow> (chart_row \<Rightarrow> chart_row) \<Rightarrow> aggregated \<Rightarrow> aggregated" where
  "modify k f [] = []"
| "modify k f ((k', r) # kvs) =
     (if k' = k then (k', f r) # kvs else (k', r) # modify k f kvs)"

text \<open>The body of \<open>sortedData.forEach\<close>.\<close>

definition womack_step :: "aggregated \<Rightarrow> iso_date DailyReading \<Rightarrow> aggregated" where
  "womack_step aggregatedData d =
     (let dateKey = toLocaleDateString (date d);
          agg = (if map_of aggregatedData dateKey = None
                 then aggregatedData @ [(dateKey, new_row dateKey)]
                 else aggregatedData)
      in if line d = 1 then
           modify dateKey (\<lambda>r. r\<lparr>Agua_L1 := Agua_L1 r + waterConsumption d,
                                 Aceite_L1 := Aceite_L1 r + oilConsumptionTotal d\<rparr>) agg
         else if line d = 2 then
           modify dateKey (\<lambda>r. r\<lparr>Agua_L2 := Agua_L2 r + waterConsumption d,
                                 Aceite_L2 := Aceite_L2 r + oilConsumptionTotal d\<rparr>) agg
         else agg)"

text \<open>
  \<open>[...womackData].sort((a, b) => new Date(a.date) - new Date(b.date))\<close>: a stable sort
  by the time value.
\<close>

definition sortedData :: "iso_date DailyReading list \<Rightarrow> iso_date DailyReading list" where
  "sortedData womackData = sort_key (\<lambda>d. Date_valueOf (date d)) womackData"

definition aggregatedData :: "iso_date DailyReading list \<Rightarrow> aggregated" where
  "aggregatedData womackData = foldl womack_step [] (sortedData womackData)"

text \<open>\<open>xs.slice(-n)\<close>: the last \<open>n\<close> elements, all of them when there are fewer.\<close>

definition slice_last :: "nat \<Rightarrow> 'a list \<Rightarrow> 'a list" where
  "slice_last n xs = drop (length xs - n) xs"

definition womackChartData :: "iso_date DailyReading list \<Rightarrow> chart_row list" where
  "womackChartData womackData = slice_last 7 (map snd (aggregatedData womackData))"

text \<open>
  Helpers for the statements about the aggregate: what one reading adds to its row, the row
  found under a label (the fresh row when there is none yet), and what an accumulator
  holds after it has received one field of the readings of one label and one line, in the
  order of the list.
\<close>

definition add_line :: "iso_date DailyReading \<Rightarrow> chart_row \<Rightarrow> chart_row" where
  "add_line d r =
     (if line d = 1 then r\<lparr>Agua_L1 := Agua_L1 r + waterConsumption d,
                             Aceite_L1 := Aceite_L1 r + oilConsumptionTotal d\<rparr>
      else if line d = 2 then r\<lparr>Agua_L2 := Agua_L2 r + waterConsumption d,
                                  Aceite_L2 := Aceite_L2 r + oilConsumptionTotal d\<rparr>
      else r)"

definition row_or_new :: "aggregated \<Rightarrow> string \<Rightarrow> chart_row" where
  "row_or_new agg k = (case map_of agg k of None \<Rightarrow> new_row k | Some r \<Rightarrow> r)"

definition contrib ::
  "nat \<Rightarrow> (iso_date DailyReading \<Rightarrow> jsnum) \<Rightarrow> string \<Rightarrow> jsnum \<Rightarrow>
     iso_date DailyReading list \<Rightarrow> jsnum" where
  "contrib l fld k acc xs =
     accumulate acc
       (map fld (filter (\<lambda>d. toLocaleDateString (date d) = k \<and> line d = l) xs))"

text \<open>
  The sum that the specification asks of a row: one field over the readings of one
  calendar date and one line.
\<close>

definition sum_of_date ::
  "(iso_date DailyReading \<Rightarrow> jsnum) \<Rightarrow> iso_date \<Rightarrow> nat \<Rightarrow> iso_date DailyReading list \<Rightarrow> jsnum" where
  "sum_of_date fld dt l ds =
     accumulate (Num 0) (map fld (filter (\<lambda>d. date d = dt \<and> line d = l) ds))"

text \<open>Concrete readings and rows for the examples.\<close>

definition daily :: "nat \<Rightarrow> nat \<Rightarrow> nat \<Rightarrow> nat \<Rightarrow> rat \<Rightarrow> rat \<Rightarrow> iso_date DailyReading" where
  "daily y m d l water oil =
     \<lparr>line = l, createdAt = [], date = \<lparr>year = y, month = m, day = d\<rparr>,
      waterConsumption = Num water, oilConsumptionTotal = Num oil,
      oilConsumptionPartial = Num 0\<rparr>"

definition row :: "string \<Rightarrow> rat \<Rightarrow> rat \<Rightarrow> rat \<Rightarrow> rat \<Rightarrow> chart_row" where
  "row k w1 w2 o1 o2 =
     \<lparr>name = k, Agua_L1 = Num w1, Agua_L2 = Num w2, Aceite_L1 = Num o1, Aceite_L2 = Num o2\<rparr>"

section \<open>Dashboard: the weekly latest-per-line comparison\<close>

text \<open>
  \<open>latestWeekData\<close> is an object keyed by the line. A record replaces the one held for its
  line only when its week starts strictly later.
\<close>

type_synonym latest = "nat \<Rightarrow> iso_date WeeklyReading option"

definition latest_step :: "latest \<Rightarrow> iso_date WeeklyReading \<Rightarrow> latest" where
  "latest_step latestWeekData d =
     (case latestWeekData (line d) of
        None \<Rightarrow> latestWeekData(line d \<mapsto> d)
      | Some cur \<Rightarrow>
          if Date_valueOf (weekStartDate d) > Date_valueOf (weekStartDate cur)
          then latestWeekData(line d \<mapsto> d)
          else latestWeekData)"

definition latestWeekData :: "iso_date WeeklyReading list \<Rightarrow> latest" where
  "latestWeekData bodymakerData = foldl latest_step (\<lambda>l. None) bodymakerData"

text \<open>\<open>latestWeekData[l]?.readings || []\<close>\<close>

definition lineData :: "nat \<Rightarrow> iso_date WeeklyReading list \<Rightarrow> reading list" where
  "lineData l bodymakerData =
     (case latestWeekData bodymakerData l of None \<Rightarrow> [] | Some d \<Rightarrow> readings d)"

text \<open>\<open>new Set(xs)\<close> keeps the first occurrence of each element, in order.\<close>

definition Set_add :: "'a list \<Rightarrow> 'a \<Rightarrow> 'a list" where
  "Set_add s x = (if x \<in> set s then s else s @ [x])"

definition new_Set :: "'a list \<Rightarrow> 'a list" where
  "new_Set xs = foldl Set_add [] xs"

definition allMachines :: "reading list \<Rightarrow> reading list \<Rightarrow> nat list" where
  "allMachines line1Data line2Data =
     sort (new_Set (map machineId line1Data @ map machineId line2Data))"

text \<open>\<open>lineData.find(r => r.machineId === machineId)?.consumption || 0\<close>\<close>

definition consumption_or_zero :: "reading list \<Rightarrow> nat \<Rightarrow> jsnum" where
  "consumption_or_zero rs m =
     (case find (\<lambda>r. machineId r = m) rs of
        None \<Rightarrow> Num 0
      | Some r \<Rightarrow> or_zero (consumption r))"

record bar_row = named +
  Consumo_L1 :: jsnum
  Consumo_L2 :: jsnum

text \<open>
  The row of one machine. A machine identifier prints as its decimal digits (as every
  integer below \<open>10^21\<close> does).
\<close>

definition bar_of :: "reading list \<Rightarrow> reading list \<Rightarrow> nat \<Rightarrow> bar_row" where
  "bar_of line1Data line2Data m =
     \<lparr>name = ''BM '' @ show_nat m,
      Consumo_L1 = consumption_or_zero line1Data m,
      Consumo_L2 = consumption_or_zero line2Data m\<rparr>"

definition bodymakerChartData :: "iso_date WeeklyReading list \<Rightarrow> bar_row list" where
  "bodymakerChartData bodymakerData =
     (let line1Data = lineData 1 bodymakerData;
          line2Data = lineData 2 bodymakerData
      in map (bar_of line1Data line2Data) (allMachines line1Data line2Data))"

definition weekly ::
  "nat \<Rightarrow> nat \<Rightarrow> nat \<Rightarrow> nat \<Rightarrow> (nat \<times> rat) list \<Rightarrow> iso_date WeeklyReading" where
  "weekly y m d l rs =
     \<lparr>line = l, createdAt = [], weekStartDate = \<lparr>year = y, month = m, day = d\<rparr>,
      readings = map (\<lambda>(i, c). \<lparr>machineId = i, consumption = Num c\<rparr>) rs\<rparr>"

definition bar :: "string \<Rightarrow> rat \<Rightarrow> rat \<Rightarrow> bar_row" where
  "bar k c1 c2 = \<lparr>name = k, Consumo_L1 = Num c1, Consumo_L2 = Num c2\<rparr>"

section \<open>Record submission\<close>

subsection \<open>\<open>Number(text)\<close>\<close>

text \<open>
  The conversion of a text to a number: surrounding white space is dropped; the empty text
  is \<open>0\<close>; a binary, octal or hexadecimal literal has no sign; a decimal literal has an
  optional sign, digits around an optional point, and an optional exponent; \<open>Infinity\<close>
  with an optional sign; every other text is \<open>NaN\<close>. The value of a literal is the
  double nearest to it. A character is a code unit below 256.
\<close>

definition is_digit :: "char \<Rightarrow> bool" where
  "is_digit c = (48 \<le> (of_char c :: nat) \<and> (of_char c :: nat) \<le> 57)"

definition digit_of :: "char \<Rightarrow> nat option" where
  "digit_of c =
     (let n = (of_char c :: nat)
      in if 48 \<le> n \<and> n \<le> 57 then Some (n - 48)
         else if 97 \<le> n \<and> n \<le> 102 then Some (n - 87)
         else if 65 \<le> n \<and> n \<le> 70 then Some (n - 55)
         else None)"

definition digits_value :: "nat \<Rightarrow> string \<Rightarrow> nat option" where
  "digits_value base s =
     (if s = [] then None
      else foldl (\<lambda>acc c. case (acc, digit_of c) of
                    (Some a, Some d) \<Rightarrow> if d < base then Some (a * base + d) else None
                  | _ \<Rightarrow> None) (Some 0) s)"

definition is_ws :: "char \<Rightarrow> bool" where
  "is_ws c =
     (c \<in> set [CHR 0x09, CHR 0x0A, CHR 0x0B, CHR 0x0C, CHR 0x0D, CHR 0x20, CHR 0xA0])"

definition trim :: "string \<Rightarrow> string" where
  "trim s = rev (dropWhile is_ws (rev (dropWhile is_ws s)))"

definition scale10 :: "nat \<Rightarrow> int \<Rightarrow> rat" where
  "scale10 m e = (if 0 \<le> e then of_nat m * 10 ^ nat e else of_nat m / 10 ^ nat (- e))"

definition exponent_part :: "string \<Rightarrow> int option" where
  "exponent_part s =
     (case s of
        [] \<Rightarrow> Some 0
      | c # t \<Rightarrow>
          if c = CHR ''e'' \<or> c = CHR ''E'' then
            (case t of
               [] \<Rightarrow> None
             | sg # u \<Rightarrow>
                 if sg = CHR ''+'' then map_option int (digits_value 10 u)
                 else if sg = CHR ''-'' then map_option (\<lambda>n. - int n) (digits_value 10 u)
                 else map_option int (digits_value 10 t))
          else None)"

definition unsigned_decimal :: "string \<Rightarrow> jsnum" where
  "unsigned_decimal s =
     (if s = ''Infinity'' then PosInf
      else
        let ip = takeWhile is_digit s;
            r1 = dropWhile is_digit s;
            dot = (r1 \<noteq> [] \<and> hd r1 = CHR ''.'');
            fp = (if dot then takeWhile is_digit (tl r1) else []);
            r2 = (if dot then dropWhile is_digit (tl r1) else r1)
        in if ip = [] \<and> fp = [] then NaN
           else (case (digits_value 10 (CHR ''0'' # ip @ fp), exponent_part r2) of
                   (Some m, Some e) \<Rightarrow> to_double (scale10 m (e - int (length fp)))
                 | _ \<Rightarrow> NaN))"

definition non_decimal :: "string \<Rightarrow> jsnum option" where
  "non_decimal s =
     (case s of
        z # p # t \<Rightarrow>
          if z \<noteq> CHR ''0'' then None
          else if p = CHR ''x'' \<or> p = CHR ''X'' then
            Some (case digits_value 16 t of None \<Rightarrow> NaN | Some n \<Rightarrow> to_double (of_nat n))
          else if p = CHR ''o'' \<or> p = CHR ''O'' then
            Some (case digits_value 8 t of None \<Rightarrow> NaN | Some n \<Rightarrow> to_double (of_nat n))
          else if p = CHR ''b'' \<or> p = CHR ''B'' then
            Some (case digits_value 2 t of None \<Rightarrow> NaN | Some n \<Rightarrow> to_double (of_nat n))
          else None
      | _ \<Rightarrow> None)"

definition Number_js :: "string \<Rightarrow> jsnum" where
  "Number_js str =
     (let s = trim str
      in if s = [] then Num 0
         else (case non_decimal s of
                 Some v \<Rightarrow> v
               | None \<Rightarrow>
                   if hd s = CHR ''+'' then unsigned_decimal (tl s)
                   else if hd s = CHR ''-'' then js_neg (unsigned_decimal (tl s))
                   else unsigned_decimal s))"

subsection \<open>The store and the messages\<close>

text \<open>
  A collection is the list of its documents. \<open>addDoc\<close> either appends the document or is
  rejected (the store refuses, the network fails): which of the two is the environment's
  choice, the flag \<open>accepts\<close>. A rejection is the \<open>catch\<close> branch of the caller.
\<close>

definition addDoc :: "bool \<Rightarrow> 'doc list \<Rightarrow> 'doc \<Rightarrow> 'doc list option" where
  "addDoc accepts coll doc = (if accepts then Some (coll @ [doc]) else None)"

text \<open>
  The texts shown under the forms, in the order of the constructors:
  none; "Error: Todos los campos son obligatorios."; "Registro guardado con exito!";
  "Error: Debes seleccionar una semana e introducir al menos un consumo.";
  "Registros semanales guardados con exito!"; "Error al guardar. Intentalo de nuevo."
  Their removal after three seconds is not modelled.
\<close>

datatype message =
    NoMessage
  | ErrorCamposObligatorios
  | RegistroGuardado
  | ErrorSemanaConsumo
  | RegistrosSemanalesGuardados
  | ErrorAlGuardar

text \<open>
  What a submission leaves behind: the state of the form, the collection, and the
  documents that were passed to \<open>addDoc\<close>, accepted or not.
\<close>

record ('s, 'doc) submitted =
  form :: 's
  collection :: "'doc list"
  addDoc_calls :: "'doc list"

subsection \<open>The daily form\<close>

text \<open>The state variables that both forms have, then those of \<open>WomackControl\<close>.\<close>

record control =
  st_line :: nat
  st_message :: message
  st_isLoading :: bool

record WomackControl = control +
  st_date :: string
  st_water :: string
  st_oilTotal :: string
  st_oilPartial :: string

text \<open>
  \<open>handleSubmit\<close> of \<open>WomackControl\<close>. A text is falsy when it is empty, the line (a number)
  when it is zero. \<open>now\<close> is the clock's \<open>new Date().toISOString()\<close>.
\<close>

definition WomackControl_handleSubmit ::
  "bool \<Rightarrow> string \<Rightarrow> WomackControl \<Rightarrow> string DailyReading list \<Rightarrow>
     (WomackControl, string DailyReading) submitted" where
  "WomackControl_handleSubmit accepts now s womackCollection =
     (if st_date s = [] \<or> st_line s = 0 \<or> st_water s = [] \<or> st_oilTotal s = [] \<or>
         st_oilPartial s = []
      then \<lparr>form = s\<lparr>st_message := ErrorCamposObligatorios\<rparr>,
            collection = womackCollection, addDoc_calls = []\<rparr>
      else
        let doc = \<lparr>line = st_line s, createdAt = now, date = st_date s,
                   waterConsumption = Number_js (st_water s),
                   oilConsumptionTotal = Number_js (st_oilTotal s),
                   oilConsumptionPartial = Number_js (st_oilPartial s)\<rparr>
        in (case addDoc accepts womackCollection doc of
              Some coll \<Rightarrow>
                \<lparr>form = s\<lparr>st_message := RegistroGuardado, st_isLoading := False,
                            st_water := [], st_oilTotal := [], st_oilPartial := []\<rparr>,
                 collection = coll, addDoc_calls = [doc]\<rparr>
            | None \<Rightarrow>
                \<lparr>form = s\<lparr>st_message := ErrorAlGuardar, st_isLoading := False\<rparr>,
                 collection = womackCollection, addDoc_calls = [doc]\<rparr>))"

subsection \<open>The weekly form\<close>

text \<open>
  \<open>consumptions\<close> is an object whose keys are machine identifiers. Such keys are array
  indices, which \<open>Object.entries\<close> lists in ascending numeric order whatever the order of
  creation: the object is an association list sorted by key, a key is the number it
  denotes (\<open>Number(machineId)\<close> gives it back), and \<open>{...prev, [k]: v}\<close> is \<open>obj_set\<close>.
\<close>

fun obj_set :: "nat \<Rightarrow> 'v \<Rightarrow> (nat \<times> 'v) list \<Rightarrow> (nat \<times> 'v) list" where
  "obj_set k v [] = [(k, v)]"
| "obj_set k v ((k', v') # kvs) =
     (if k < k' then (k, v) # (k', v') # kvs
      else if k = k' then (k, v) # kvs
      else (k', v') # obj_set k v kvs)"

definition machines :: "nat \<Rightarrow> nat list" where
  "machines lineNo =
     (if lineNo = 1 then map (\<lambda>i. 11 + i) [0..<8] else map (\<lambda>i. 21 + i) [0..<8])"

text \<open>\<open>machines.reduce((acc, machineId) => ({ ...acc, [machineId]: '' }), {})\<close>\<close>

definition blank_consumptions :: "nat list \<Rightarrow> (nat \<times> string) list" where
  "blank_consumptions ms = foldl (\<lambda>acc machineId. obj_set machineId [] acc) [] ms"

record BodymakerControl = control +
  st_week :: string
  st_consumptions :: "(nat \<times> string) list"

text \<open>The \<open>readings\<close> computed by \<open>handleSubmit\<close>: map, then filter.\<close>

definition form_readings :: "(nat \<times> string) list \<Rightarrow> reading list" where
  "form_readings consumptions =
     filter (\<lambda>r. js_gt (consumption r) (Num 0))
       (map (\<lambda>(k, v). \<lparr>machineId = k, consumption = Number_js v\<rparr>) consumptions)"

definition BodymakerControl_handleSubmit ::
  "bool \<Rightarrow> string \<Rightarrow> BodymakerControl \<Rightarrow> string WeeklyReading list \<Rightarrow>
     (BodymakerControl, string WeeklyReading) submitted" where
  "BodymakerControl_handleSubmit accepts now s bodymakerCollection =
     (let rs = form_readings (st_consumptions s)
      in if st_week s = [] \<or> rs = []
         then \<lparr>form = s\<lparr>st_message := ErrorSemanaConsumo\<rparr>,
               collection = bodymakerCollection, addDoc_calls = []\<rparr>
         else
           let doc = \<lparr>line = st_line s, createdAt = now, weekStartDate = st_week s,
                      readings = rs\<rparr>
           in (case addDoc accepts bodymakerCollection doc of
                 Some coll \<Rightarrow>
                   \<lparr>form = s\<lparr>st_message := RegistrosSemanalesGuardados,
                               st_isLoading := False,
                               st_consumptions := blank_consumptions (machines (st_line s))\<rparr>,
                    collection = coll, addDoc_calls = [doc]\<rparr>
               | None \<Rightarrow>
                   \<lparr>form = s\<lparr>st_message := ErrorAlGuardar, st_isLoading := False\<rparr>,
                    collection = bodymakerCollection, addDoc_calls = [doc]\<rparr>))"

text \<open>
  The weekly form as a machine. Its events are what the rendered form can do: choose a
  week, choose a line (after which the effect on \<open>[line, machines]\<close> blanks the inputs; a
  choice of the current line changes nothing), type into the input of a machine of the
  current line (there is no input for another machine), and submit. Each handler runs to
  its end before the next event.
\<close>

datatype event =
    SetWeek string
  | SetLine nat
  | ConsumptionChange nat string
  | Submit bool string

record bodymaker_system =
  control_state :: BodymakerControl
  entries :: "string WeeklyReading list"

definition initial_system :: "string \<Rightarrow> bodymaker_system" where
  "initial_system monday =
     \<lparr>control_state =
        \<lparr>st_line = 1, st_message = NoMessage, st_isLoading = False, st_week = monday,
         st_consumptions = blank_consumptions (machines 1)\<rparr>,
      entries = []\<rparr>"

fun step :: "bodymaker_system \<Rightarrow> event \<Rightarrow> bodymaker_system" where
  "step sys (SetWeek w) = sys\<lparr>control_state := (control_state sys)\<lparr>st_week := w\<rparr>\<rparr>"
| "step sys (SetLine lineNo) =
     (if lineNo = st_line (control_state sys) then sys
      else sys\<lparr>control_state := (control_state sys)
                 \<lparr>st_line := lineNo,
                  st_consumptions := blank_consumptions (machines lineNo)\<rparr>\<rparr>)"
| "step sys (ConsumptionChange m v) =
     (if m \<in> set (machines (st_line (control_state sys)))
      then sys\<lparr>control_state := (control_state sys)
                 \<lparr>st_consumptions := obj_set m v (st_consumptions (control_state sys))\<rparr>\<rparr>
      else sys)"
| "step sys (Submit accepts now) =
     (let res = BodymakerControl_handleSubmit accepts now (control_state sys) (entries sys)
      in \<lparr>control_state = form res, entries = collection res\<rparr>)"

definition run :: "string \<Rightarrow> event list \<Rightarrow> bodymaker_system" where
  "run monday evs = foldl step (initial_system monday) evs"

text \<open>The keys of the inputs are the machines of the chosen line.\<close>

definition keys_inv :: "BodymakerControl \<Rightarrow> bool" where
  "keys_inv s = (fst ` set (st_consumptions s) = set (machines (st_line s)))"

text \<open>What is required of an accepted weekly document.\<close>

definition accepted_ok :: "'d WeeklyReading \<Rightarrow> bool" where
  "accepted_ok doc =
     ((line doc = 1 \<longrightarrow> (\<forall>r\<in>set (readings doc). machineId r \<in> {11..18})) \<and>
      (line doc = 2 \<longrightarrow> (\<forall>r\<in>set (readings doc). machineId r \<in> {21..28})) \<and>
      (\<forall>r\<in>set (readings doc). js_gt (consumption r) (Num 0)))"

section \<open>Identity bootstrap\<close>

text \<open>
  The identity provider as the hook sees it: the session it already holds, if any, and
  what its two sign-in calls answer (\<open>None\<close>: the call is rejected). A custom token
  yields an authenticated user, an anonymous sign-in an anonymous session.
\<close>

datatype session = AuthenticatedUser string | AnonymousSession string

record identity_provider =
  currentUser :: "session option"
  signInWithCustomToken :: "string \<Rightarrow> string option"
  signInAnonymously :: "string option"

text \<open>
  What the hook does, in program order: it sets its state (\<open>setUser\<close>,
  \<open>setIsAuthReady(true)\<close>), a sign-in call returns a session or is rejected, an error goes
  to the console.
\<close>

datatype effect =
    SetUser session
  | SignedIn session
  | SignInRejected
  | ConsoleError
  | SetIsAuthReady

text \<open>
  \<open>await signInAnonymously(authInstance)\<close> followed by \<open>setIsAuthReady(true)\<close>. A rejected
  call outside a \<open>try\<close> ends the handler: nothing after it runs.
\<close>

definition anonymous_then_ready :: "identity_provider \<Rightarrow> effect list" where
  "anonymous_then_ready idp =
     (case signInAnonymously idp of
        Some uid \<Rightarrow> [SignedIn (AnonymousSession uid), SetIsAuthReady]
      | None \<Rightarrow> [SignInRejected])"

text \<open>
  The handler given to \<open>onAuthStateChanged\<close>, called with the provider's user.
  \<open>initialAuthToken\<close> is \<open>null\<close> or a text, and truthy when it is a non-empty text.
\<close>

definition auth_callback ::
  "identity_provider \<Rightarrow> string option \<Rightarrow> session option \<Rightarrow> effect list" where
  "auth_callback idp initialAuthToken cur =
     (case cur of
        Some u \<Rightarrow> [SetUser u, SetIsAuthReady]
      | None \<Rightarrow>
          (case initialAuthToken of
             None \<Rightarrow> anonymous_then_ready idp
           | Some token \<Rightarrow>
               if token = [] then anonymous_then_ready idp
               else (case signInWithCustomToken idp token of
                       Some uid \<Rightarrow> [SignedIn (AuthenticatedUser uid), SetIsAuthReady]
                     | None \<Rightarrow> [SignInRejected, ConsoleError] @ anonymous_then_ready idp)))"

fun signed_in :: "effect list \<Rightarrow> session list" where
  "signed_in [] = []"
| "signed_in (SignedIn u # es) = u # signed_in es"
| "signed_in (e # es) = signed_in es"

text \<open>
  The effect of \<open>useFirebaseAuth\<close>. Without a configuration it logs an error and registers
  nothing. Otherwise the provider calls the handler with its user, and again with the new
  user after a sign-in has succeeded.
\<close>

definition bootstrap :: "bool \<Rightarrow> identity_provider \<Rightarrow> string option \<Rightarrow> effect list" where
  "bootstrap config_present idp initialAuthToken =
     (if \<not> config_present then [ConsoleError]
      else
        let first = auth_callback idp initialAuthToken (currentUser idp)
        in first @
           concat (map (\<lambda>u. auth_callback idp initialAuthToken (Some u)) (signed_in first)))"

text \<open>What the hook returns, and the application shows: the user and the readiness flag.\<close>

record hook_state =
  user :: "session option"
  isAuthReady :: bool

fun apply_effect :: "hook_state \<Rightarrow> effect \<Rightarrow> hook_state" where
  "apply_effect st (SetUser u) = st\<lparr>user := Some u\<rparr>"
| "apply_effect st SetIsAuthReady = st\<lparr>isAuthReady := True\<rparr>"
| "apply_effect st e = st"

definition useFirebaseAuth :: "bool \<Rightarrow> identity_provider \<Rightarrow> string option \<Rightarrow> hook_state" where
  "useFirebaseAuth config_present idp initialAuthToken =
     foldl apply_effect \<lparr>user = None, isAuthReady = False\<rparr>
       (bootstrap config_present idp initialAuthToken)"

text \<open>
  The sessions that exist when readiness is first signalled: the one the provider held,
  and those created by the sign-ins before the signal.
\<close>

definition established_before_ready :: "session option \<Rightarrow> effect list \<Rightarrow> session list" where
  "established_before_ready cur es =
     (case cur of None \<Rightarrow> [] | Some u \<Rightarrow> [u]) @
     signed_in (takeWhile (\<lambda>e. e \<noteq> SetIsAuthReady) es)"

section \<open>The two transforms on a store\<close>

text \<open>
  The dashboard's transforms are functions of their input snapshots, but the code builds
  their results by mutation: it sorts an array in place, adds properties to objects,
  adds to the fields of rows. To say that the input is left alone, the code is modelled
  a second time on an explicit store. A cell of the store is an array of references, an
  array of numbers, a record of one of the two collections (a weekly record refers to
  the array of its readings), a reading, a row of a chart, or one of the two objects
  used as dictionaries. An address is fresh from \<open>next_free\<close> on; \<open>alloc\<close> is every
  array or object literal, spread, \<open>map\<close>, \<open>Set\<close> or \<open>Object.values\<close> of the code, \<open>store\<close> every
  assignment to a property and the in-place \<open>sort\<close>. A read of a cell of the wrong kind
  is the code's \<open>TypeError\<close>, the result \<open>None\<close>.
\<close>

type_synonym addr = nat

datatype cell =
    Arr "addr list"
  | Nums "nat list"
  | DailyObj "iso_date DailyReading"
  | WeeklyObj nat string iso_date addr
  | ReadingObj reading
  | RowObj chart_row
  | BarObj bar_row
  | Dict "(string \<times> addr) list"
  | LineDict "(nat \<times> addr) list"

record heap =
  cells :: "addr \<Rightarrow> cell option"
  next_free :: addr

text \<open>
  A new array or object takes the next free address.
\<close>

definition alloc :: "cell \<Rightarrow> heap \<Rightarrow> addr \<times> heap" where
  "alloc c h =
     (next_free h,
      \<lparr>cells = (cells h)(next_free h \<mapsto> c), next_free = Suc (next_free h)\<rparr>)"

definition store :: "addr \<Rightarrow> cell \<Rightarrow> heap \<Rightarrow> heap" where
  "store a c h = h\<lparr>cells := (cells h)(a \<mapsto> c)\<rparr>"

text \<open>
  Reading the cell at an address as an object of one kind.
\<close>

definition arr_at :: "heap \<Rightarrow> addr \<Rightarrow> addr list option" where
  "arr_at h a = (case cells h a of Some (Arr ps) \<Rightarrow> Some ps | _ \<Rightarrow> None)"

definition daily_at :: "heap \<Rightarrow> addr \<Rightarrow> iso_date DailyReading option" where
  "daily_at h a = (case cells h a of Some (DailyObj d) \<Rightarrow> Some d | _ \<Rightarrow> None)"

definition row_at :: "heap \<Rightarrow> addr \<Rightarrow> chart_row option" where
  "row_at h a = (case cells h a of Some (RowObj r) \<Rightarrow> Some r | _ \<Rightarrow> None)"

definition dict_at :: "heap \<Rightarrow> addr \<Rightarrow> (string \<times> addr) list option" where
  "dict_at h a = (case cells h a of Some (Dict kvs) \<Rightarrow> Some kvs | _ \<Rightarrow> None)"

text \<open>
  A \<open>forEach\<close> or \<open>map\<close> whose callback may fail: the first failure ends it.
\<close>

fun foldM :: "('s \<Rightarrow> 'a \<Rightarrow> 's option) \<Rightarrow> 's \<Rightarrow> 'a list \<Rightarrow> 's option" where
  "foldM f s [] = Some s"
| "foldM f s (x # xs) = (case f s x of None \<Rightarrow> None | Some s' \<Rightarrow> foldM f s' xs)"

subsection \<open>The daily aggregate on the store\<close>

text \<open>
  \<open>xs.sort((a, b) => new Date(a.date) - new Date(b.date))\<close> on the array at \<open>b\<close>: the
  comparator reads the date of each element through its reference, and the array is
  overwritten with its references in stable order of their time values.
\<close>

definition time_at :: "heap \<Rightarrow> addr \<Rightarrow> int" where
  "time_at h p = (case daily_at h p of Some d \<Rightarrow> Date_valueOf (date d) | None \<Rightarrow> 0)"

definition sort_in_place :: "addr \<Rightarrow> heap \<Rightarrow> heap option" where
  "sort_in_place b h =
     (case arr_at h b of
        None \<Rightarrow> None
      | Some ps \<Rightarrow>
          (case those (map (daily_at h) ps) of
             None \<Rightarrow> None
           | Some ds \<Rightarrow> Some (store b (Arr (sort_key (time_at h) ps)) h)))"

text \<open>
  \<open>if (!aggregatedData[dateKey]) aggregatedData[dateKey] = { name: dateKey, ... }\<close>: a new
  row object, and a new property of the object \<open>aggregatedData\<close> that refers to it.
\<close>

definition ensure_row :: "addr \<Rightarrow> string \<Rightarrow> heap \<Rightarrow> heap option" where
  "ensure_row agg dateKey h =
     (case dict_at h agg of
        None \<Rightarrow> None
      | Some dict \<Rightarrow>
          if map_of dict dateKey = None
          then (let (r, h') = alloc (RowObj (new_row dateKey)) h
                in Some (store agg (Dict (dict @ [(dateKey, r)])) h'))
          else Some h)"

text \<open>
  \<open>aggregatedData[dateKey][...] += ...\<close>: the row object found under the key is
  overwritten. The two additions that one reading makes to its row are one \<open>store\<close>.
\<close>

definition update_row ::
  "addr \<Rightarrow> string \<Rightarrow> (chart_row \<Rightarrow> chart_row) \<Rightarrow> heap \<Rightarrow> heap option" where
  "update_row agg dateKey f h =
     (case dict_at h agg of
        None \<Rightarrow> None
      | Some dict \<Rightarrow>
          (case map_of dict dateKey of
             None \<Rightarrow> None
           | Some r \<Rightarrow>
               (case row_at h r of
                  None \<Rightarrow> None
                | Some rw \<Rightarrow> Some (store r (RowObj (f rw)) h))))"

text \<open>
  The body of \<open>sortedData.forEach\<close>, called with the reference \<open>p\<close> of a reading.
\<close>

definition womack_step_heap :: "addr \<Rightarrow> heap \<Rightarrow> addr \<Rightarrow> heap option" where
  "womack_step_heap agg h p =
     (case daily_at h p of
        None \<Rightarrow> None
      | Some d \<Rightarrow>
          let dateKey = toLocaleDateString (date d)
          in (case ensure_row agg dateKey h of
                None \<Rightarrow> None
              | Some h1 \<Rightarrow>
                  if line d = 1 then
                    update_row agg dateKey
                      (\<lambda>r. r\<lparr>Agua_L1 := Agua_L1 r + waterConsumption d,
                            Aceite_L1 := Aceite_L1 r + oilConsumptionTotal d\<rparr>) h1
                  else if line d = 2 then
                    update_row agg dateKey
                      (\<lambda>r. r\<lparr>Agua_L2 := Agua_L2 r + waterConsumption d,
                            Aceite_L2 := Aceite_L2 r + oilConsumptionTotal d\<rparr>) h1
                  else Some h1))"

text \<open>
  \<open>womackChartData\<close>, given the address of the array \<open>womackData\<close>: the object
  \<open>aggregatedData\<close>, the copy \<open>[...womackData]\<close> and its sort, the loop, the array of
  \<open>Object.values\<close> and the array of \<open>slice(-7)\<close>, whose address is the result.
\<close>

definition womackChartData_heap :: "heap \<Rightarrow> addr \<Rightarrow> (addr \<times> heap) option" where
  "womackChartData_heap h womackData =
     (case arr_at h womackData of
        None \<Rightarrow> None
      | Some ps \<Rightarrow>
          let (agg, h1) = alloc (Dict []) h;
              (b, h2) = alloc (Arr ps) h1
          in (case sort_in_place b h2 of
                None \<Rightarrow> None
              | Some h3 \<Rightarrow>
                  (case arr_at h3 b of
                     None \<Rightarrow> None
                   | Some sortedRefs \<Rightarrow>
                       (case foldM (womack_step_heap agg) h3 sortedRefs of
                          None \<Rightarrow> None
                        | Some h4 \<Rightarrow>
                            (case dict_at h4 agg of
                               None \<Rightarrow> None
                             | Some dict \<Rightarrow>
                                 let (vals, h5) = alloc (Arr (map snd dict)) h4
                                 in Some (alloc (Arr (slice_last 7 (map snd dict))) h5))))))"

text \<open>
  The content of an array of rows and of an array of daily readings, as values; and the
  condition on a store that nothing lies at or beyond its next free address.
\<close>

definition rows_at :: "heap \<Rightarrow> addr \<Rightarrow> chart_row list option" where
  "rows_at h a =
     (case arr_at h a of None \<Rightarrow> None | Some ps \<Rightarrow> those (map (row_at h) ps))"

definition daily_snapshot :: "heap \<Rightarrow> addr \<Rightarrow> iso_date DailyReading list option" where
  "daily_snapshot h a =
     (case arr_at h a of None \<Rightarrow> None | Some ps \<Rightarrow> those (map (daily_at h) ps))"

definition heap_ok :: "heap \<Rightarrow> bool" where
  "heap_ok h = (\<forall>p. next_free h \<le> p \<longrightarrow> cells h p = None)"

subsection \<open>The weekly comparison on the store\<close>

definition reading_at :: "heap \<Rightarrow> addr \<Rightarrow> reading option" where
  "reading_at h a = (case cells h a of Some (ReadingObj r) \<Rightarrow> Some r | _ \<Rightarrow> None)"

definition readings_at :: "heap \<Rightarrow> addr \<Rightarrow> reading list option" where
  "readings_at h a =
     (case arr_at h a of None \<Rightarrow> None | Some qs \<Rightarrow> those (map (reading_at h) qs))"

definition nums_at :: "heap \<Rightarrow> addr \<Rightarrow> nat list option" where
  "nums_at h a = (case cells h a of Some (Nums ns) \<Rightarrow> Some ns | _ \<Rightarrow> None)"

definition bar_at :: "heap \<Rightarrow> addr \<Rightarrow> bar_row option" where
  "bar_at h a = (case cells h a of Some (BarObj b) \<Rightarrow> Some b | _ \<Rightarrow> None)"

definition linedict_at :: "heap \<Rightarrow> addr \<Rightarrow> (nat \<times> addr) list option" where
  "linedict_at h a = (case cells h a of Some (LineDict kvs) \<Rightarrow> Some kvs | _ \<Rightarrow> None)"

text \<open>A weekly record as a value, its readings read through their references.\<close>

definition weekly_at :: "heap \<Rightarrow> addr \<Rightarrow> iso_date WeeklyReading option" where
  "weekly_at h a =
     (case cells h a of
        Some (WeeklyObj l c w rr) \<Rightarrow>
          (case readings_at h rr of
             None \<Rightarrow> None
           | Some rs \<Rightarrow> Some \<lparr>line = l, createdAt = c, weekStartDate = w, readings = rs\<rparr>)
      | _ \<Rightarrow> None)"

definition readings_ref :: "heap \<Rightarrow> addr \<Rightarrow> addr option" where
  "readings_ref h a = (case cells h a of Some (WeeklyObj l c w rr) \<Rightarrow> Some rr | _ \<Rightarrow> None)"

text \<open>
  The body of \<open>bodymakerData.forEach\<close>. \<open>latestWeekData[line] = d\<close> puts the reference
  of the record under its line; the entry put last is the one that a read finds.
\<close>

definition latest_step_heap :: "addr \<Rightarrow> heap \<Rightarrow> addr \<Rightarrow> heap option" where
  "latest_step_heap latest h p =
     (case weekly_at h p of
        None \<Rightarrow> None
      | Some d \<Rightarrow>
          (case linedict_at h latest of
             None \<Rightarrow> None
           | Some dict \<Rightarrow>
               (case map_of dict (line d) of
                  None \<Rightarrow> Some (store latest (LineDict ((line d, p) # dict)) h)
                | Some q \<Rightarrow>
                    (case weekly_at h q of
                       None \<Rightarrow> None
                     | Some cur \<Rightarrow>
                         if Date_valueOf (weekStartDate d) > Date_valueOf (weekStartDate cur)
                         then Some (store latest (LineDict ((line d, p) # dict)) h)
                         else Some h))))"

text \<open>
  \<open>latestWeekData[l]?.readings || []\<close>: the array of readings of the selected record
  itself, not a copy; a new empty array when the line has no record.
\<close>

definition lineData_heap :: "addr \<Rightarrow> nat \<Rightarrow> heap \<Rightarrow> (addr \<times> heap) option" where
  "lineData_heap latest l h =
     (case linedict_at h latest of
        None \<Rightarrow> None
      | Some dict \<Rightarrow>
          (case map_of dict l of
             None \<Rightarrow> Some (alloc (Arr []) h)
           | Some q \<Rightarrow> (case readings_ref h q of None \<Rightarrow> None | Some rr \<Rightarrow> Some (rr, h))))"

text \<open>
  \<open>lineData.map(r => r.machineId)\<close>: a new array of numbers.
\<close>

definition machineIds_heap :: "addr \<Rightarrow> heap \<Rightarrow> (addr \<times> heap) option" where
  "machineIds_heap lineRef h =
     (case readings_at h lineRef of
        None \<Rightarrow> None
      | Some rs \<Rightarrow> Some (alloc (Nums (map machineId rs)) h))"

text \<open>
  \<open>allMachines\<close>: the array \<open>[...ids1, ...ids2]\<close>, the \<open>Set\<close> of it, the array \<open>[...set]\<close>,
  and the numeric sort of this last array in place.
\<close>

definition allMachines_heap :: "addr \<Rightarrow> addr \<Rightarrow> heap \<Rightarrow> (addr \<times> heap) option" where
  "allMachines_heap line1Data line2Data h =
     (case machineIds_heap line1Data h of
        None \<Rightarrow> None
      | Some (ids1, h1) \<Rightarrow>
          (case machineIds_heap line2Data h1 of
             None \<Rightarrow> None
           | Some (ids2, h2) \<Rightarrow>
               (case (nums_at h2 ids1, nums_at h2 ids2) of
                  (Some ns1, Some ns2) \<Rightarrow>
                    let (both, h3) = alloc (Nums (ns1 @ ns2)) h2;
                        (uniq, h4) = alloc (Nums (new_Set (ns1 @ ns2))) h3;
                        (ms, h5) = alloc (Nums (new_Set (ns1 @ ns2))) h4
                    in Some (ms, store ms (Nums (sort (new_Set (ns1 @ ns2)))) h5)
                | _ \<Rightarrow> None)))"

text \<open>
  One call of the callback of \<open>allMachines.map\<close>: both \<open>find\<close> read the readings of their
  line on the store, and the row is a new object.
\<close>

definition bar_step_heap ::
  "addr \<Rightarrow> addr \<Rightarrow> addr list \<times> heap \<Rightarrow> nat \<Rightarrow> (addr list \<times> heap) option" where
  "bar_step_heap line1Data line2Data acc m =
     (case (readings_at (snd acc) line1Data, readings_at (snd acc) line2Data) of
        (Some rs1, Some rs2) \<Rightarrow>
          let (b, h') = alloc (BarObj (bar_of rs1 rs2 m)) (snd acc)
          in Some (fst acc @ [b], h')
      | _ \<Rightarrow> None)"

text \<open>
  \<open>bodymakerChartData\<close>, given the address of the array \<open>bodymakerData\<close>; the result is
  the address of the array of rows.
\<close>

definition bodymakerChartData_heap :: "heap \<Rightarrow> addr \<Rightarrow> (addr \<times> heap) option" where
  "bodymakerChartData_heap h bodymakerData =
     (case arr_at h bodymakerData of
        None \<Rightarrow> None
      | Some ps \<Rightarrow>
          let (latest, h1) = alloc (LineDict []) h
          in (case foldM (latest_step_heap latest) h1 ps of
                None \<Rightarrow> None
              | Some h2 \<Rightarrow>
                  (case lineData_heap latest 1 h2 of
                     None \<Rightarrow> None
                   | Some (line1Data, h3) \<Rightarrow>
                       (case lineData_heap latest 2 h3 of
                          None \<Rightarrow> None
                        | Some (line2Data, h4) \<Rightarrow>
                            (case allMachines_heap line1Data line2Data h4 of
                               None \<Rightarrow> None
                             | Some (ms, h5) \<Rightarrow>
                                 (case nums_at h5 ms of
                                    None \<Rightarrow> None
                                  | Some ns \<Rightarrow>
                                      (case foldM (bar_step_heap line1Data line2Data)
                                              ([], h5) ns of
                                         None \<Rightarrow> None
                                       | Some (bars, h6) \<Rightarrow>
                                           Some (alloc (Arr bars) h6))))))))"

text \<open>The content of an array of rows and of an array of weekly records, as values.\<close>

definition bars_at :: "heap \<Rightarrow> addr \<Rightarrow> bar_row list option" where
  "bars_at h a =
     (case arr_at h a of None \<Rightarrow> None | Some ps \<Rightarrow> those (map (bar_at h) ps))"

definition weekly_snapshot :: "heap \<Rightarrow> addr \<Rightarrow> iso_date WeeklyReading list option" where
  "weekly_snapshot h a =
     (case arr_at h a of None \<Rightarrow> None | Some ps \<Rightarrow> those (map (weekly_at h) ps))"

subsection \<open>Relating the store to the values\<close>

text \<open>
  \<open>extends h h'\<close>: the store \<open>h'\<close> has every cell of \<open>h\<close> unchanged and possibly new ones.
  The other three predicates are the invariants of the two loops: the dictionary of rows
  mirrors the association list of the daily aggregate, with its rows at distinct fresh
  addresses; the dictionary of lines mirrors \<open>latestWeekData\<close>, holding references into
  the input.
\<close>

definition extends :: "heap \<Rightarrow> heap \<Rightarrow> bool" where
  "extends h h' =
     (heap_ok h' \<and> next_free h \<le> next_free h' \<and>
      (\<forall>p<next_free h. cells h' p = cells h p))"

definition row_rel :: "heap \<Rightarrow> string \<times> addr \<Rightarrow> string \<times> chart_row \<Rightarrow> bool" where
  "row_rel h kr krow = (fst kr = fst krow \<and> row_at h (snd kr) = Some (snd krow))"

definition agg_inv :: "addr \<Rightarrow> addr \<Rightarrow> heap \<Rightarrow> heap \<Rightarrow> aggregated \<Rightarrow> bool" where
  "agg_inv n0 agg h0 h ap =
     (heap_ok h \<and> n0 \<le> agg \<and> agg < next_free h \<and>
      (\<forall>p<n0. cells h p = cells h0 p) \<and>
      (\<exists>dict. dict_at h agg = Some dict \<and> distinct (map snd dict) \<and>
         (\<forall>r\<in>snd ` set dict. n0 \<le> r \<and> r < next_free h \<and> r \<noteq> agg) \<and>
         list_all2 (row_rel h) dict ap))"

definition latest_inv :: "heap \<Rightarrow> addr \<Rightarrow> heap \<Rightarrow> latest \<Rightarrow> bool" where
  "latest_inv h0 latest h L =
     (extends h0 h \<and> next_free h0 \<le> latest \<and> latest < next_free h \<and>
      (\<exists>dict. linedict_at h latest = Some dict \<and>
         (\<forall>l. L l = (case map_of dict l of None \<Rightarrow> None | Some q \<Rightarrow> weekly_at h0 q)) \<and>
         (\<forall>l q. map_of dict l = Some q \<longrightarrow> weekly_at h0 q \<noteq> None)))"

text \<open>
  Two stores that hold the same snapshots at different addresses and in different
  layouts: three daily readings and three weekly records with their readings.
\<close>

definition store_A :: heap where
  "store_A =
     \<lparr>cells = [0 \<mapsto> Arr [2, 1, 3],
               1 \<mapsto> DailyObj (daily 2024 1 5 1 100 40),
               2 \<mapsto> DailyObj (daily 2025 1 5 1 50 10),
               3 \<mapsto> DailyObj (daily 2024 1 6 2 30 5),
               4 \<mapsto> Arr [5, 6],
               5 \<mapsto> WeeklyObj 1 [] \<lparr>year = 2024, month = 1, day = 8\<rparr> 7,
               6 \<mapsto> WeeklyObj 1 [] \<lparr>year = 2024, month = 1, day = 8\<rparr> 8,
               7 \<mapsto> Arr [9, 10], 8 \<mapsto> Arr [11],
               9 \<mapsto> ReadingObj \<lparr>machineId = 12, consumption = Num 3\<rparr>,
               10 \<mapsto> ReadingObj \<lparr>machineId = 11, consumption = Num 5\<rparr>,
               11 \<mapsto> ReadingObj \<lparr>machineId = 11, consumption = Num 9\<rparr>],
      next_free = 12\<rparr>"

definition store_B :: heap where
  "store_B =
     \<lparr>cells = [0 \<mapsto> ReadingObj \<lparr>machineId = 11, consumption = Num 9\<rparr>,
               1 \<mapsto> ReadingObj \<lparr>machineId = 11, consumption = Num 5\<rparr>,
               2 \<mapsto> ReadingObj \<lparr>machineId = 12, consumption = Num 3\<rparr>,
               3 \<mapsto> Arr [2, 1], 4 \<mapsto> Arr [0],
               5 \<mapsto> WeeklyObj 1 [] \<lparr>year = 2024, month = 1, day = 8\<rparr> 4,
               6 \<mapsto> WeeklyObj 1 [] \<lparr>year = 2024, month = 1, day = 8\<rparr> 3,
               7 \<mapsto> Arr [6, 5],
               8 \<mapsto> DailyObj (daily 2024 1 6 2 30 5),
               9 \<mapsto> DailyObj (daily 2024 1 5 1 100 40),
               10 \<mapsto> DailyObj (daily 2025 1 5 1 50 10),
               11 \<mapsto> Arr [10, 9, 8]],
      next_free = 12\<rparr>"

section \<open>Properties of the numbers\<close>

subsection \<open>Rounding\<close>

text \<open>
  \<open>floor_log2\<close> and \<open>exponent_of\<close> find the binary exponent: \<open>2^e \<le> q < 2^(e+1)\<close>.
\<close>

lemma floor_log2_bounds:
  "1 \<le> n \<Longrightarrow> 0 \<le> floor_log2 n \<and> 2 ^ nat (floor_log2 n) \<le> n \<and> n < 2 * 2 ^ nat (floor_log2 n)"
proof (induction n rule: floor_log2.induct)
  case (1 n)
  show ?case
  proof (cases "n < 2")
    case True
    with "1.prems" have "n = 1" by simp
    then show ?thesis by (simp add: floor_log2.simps)
  next
    case False
    then have "1 \<le> n div 2" by simp
    from "1.IH" [OF False this] have k: "0 \<le> floor_log2 (n div 2)"
      and lo: "2 ^ nat (floor_log2 (n div 2)) \<le> n div 2"
      and hi: "n div 2 < 2 * 2 ^ nat (floor_log2 (n div 2))"
      by simp_all
    have f: "floor_log2 n = 1 + floor_log2 (n div 2)"
      using False by (subst floor_log2.simps) simp
    have n: "nat (1 + floor_log2 (n div 2)) = Suc (nat (floor_log2 (n div 2)))"
      using k by simp
    have "2 * (n div 2) \<le> n" "n < 2 * (n div 2) + 2"
      by presburger+
    with lo hi show ?thesis
      unfolding f n using k by simp
  qed
qed

lemma pow2_power_int: "pow2 e = power_int 2 e"
  by (simp add: pow2_def power_int_def field_simps)

lemma round_half_even_near: "\<bar>of_int (round_half_even x) - x\<bar> \<le> 1 / 2"
proof -
  have "of_int \<lfloor>x\<rfloor> \<le> x" and "x < of_int \<lfloor>x\<rfloor> + 1"
    by linarith+
  then show ?thesis
    unfolding round_half_even_def Let_def by (auto simp: abs_le_iff)
qed

lemma pow2_pos: "0 < pow2 e"
  by (simp add: pow2_def)

lemma pow2_add: "pow2 (a + b) = pow2 a * pow2 b"
  by (simp add: pow2_power_int power_int_add)

lemma pow2_mono: "a \<le> b \<Longrightarrow> pow2 a \<le> pow2 b"
  by (simp add: pow2_power_int power_int_increasing)

lemma pow2_one: "pow2 1 = 2"
  by (simp add: pow2_def)

lemma pow2_Suc: "pow2 (e + 1) = pow2 e * 2"
  using pow2_add [of e 1] by (simp add: pow2_one)

lemma pow2_nat: "0 \<le> e \<Longrightarrow> pow2 e = 2 ^ nat e"
  by (simp add: pow2_def)

lemma exponent_of_bounds:
  assumes "0 < q"
  shows "pow2 (exponent_of q) \<le> q \<and> q < pow2 (exponent_of q + 1)"
proof -
  obtain p d where pd: "quotient_of q = (p, d)" by (cases "quotient_of q")
  then have d: "0 < d" and q: "q = of_int p / of_int d"
    using quotient_of_denom_pos quotient_of_div by blast+
  with assms have p: "0 < p"
    by (simp add: zero_less_divide_iff)
  define a where "a = floor_log2 p"
  define b where "b = floor_log2 d"
  from floor_log2_bounds [of p] p have a: "0 \<le> a" "2 ^ nat a \<le> p" "p < 2 * 2 ^ nat a"
    by (simp_all add: a_def)
  from floor_log2_bounds [of d] d have b: "0 \<le> b" "2 ^ nat b \<le> d" "d < 2 * 2 ^ nat b"
    by (simp_all add: b_def)
  have ra: "(2::rat) ^ nat a \<le> of_int p" "of_int p < (2::rat) * 2 ^ nat a"
    using of_int_le_iff [of "2 ^ nat a" p, where ?'a = rat]
      of_int_less_iff [of p "2 * 2 ^ nat a", where ?'a = rat] a(2,3)
    by simp_all
  have rb: "(2::rat) ^ nat b \<le> of_int d" "of_int d < (2::rat) * 2 ^ nat b"
    using of_int_le_iff [of "2 ^ nat b" d, where ?'a = rat]
      of_int_less_iff [of d "2 * 2 ^ nat b", where ?'a = rat] b(2,3)
    by simp_all
  have c: "pow2 (a - b) = 2 ^ nat a / 2 ^ nat b"
    using pow2_add [of "a - b" b] pow2_nat [OF a(1)] pow2_nat [OF b(1)] by (simp add: field_simps)
  have up: "q < pow2 (a - b + 1)"
  proof -
    have "of_int p * (2::rat) ^ nat b < (2 * 2 ^ nat a) * of_int d"
      using ra rb d p by (intro mult_less_le_imp_less) simp_all
    then have "q < 2 * 2 ^ nat a / 2 ^ nat b"
      using d by (simp add: q field_simps)
    then show ?thesis
      by (simp add: pow2_Suc c mult.commute)
  qed
  have lo: "pow2 (a - b - 1) \<le> q"
  proof -
    have "(2::rat) ^ nat a * of_int d \<le> of_int p * (2 * 2 ^ nat b)"
      using ra rb d p by (intro mult_mono) simp_all
    then have "2 ^ nat a / (2 * 2 ^ nat b) \<le> q"
      using d by (simp add: q field_simps)
    moreover have "pow2 (a - b) = pow2 (a - b - 1) * 2"
      using pow2_Suc [of "a - b - 1"] by simp
    ultimately show ?thesis
      using c by (simp add: field_simps)
  qed
  have e: "exponent_of q = (if pow2 (a - b) \<le> q then a - b else a - b - 1)"
    by (simp add: exponent_of_def pd a_def b_def)
  show ?thesis
    using up lo unfolding e by (auto simp: not_le)
qed

lemma exponent_of_unique:
  assumes "pow2 x \<le> q" and "q < pow2 (x + 1)"
  shows "exponent_of q = x"
proof -
  have "0 < q" using assms(1) pow2_pos [of x] by simp
  from exponent_of_bounds [OF this]
  have lo: "pow2 (exponent_of q) \<le> q" and hi: "q < pow2 (exponent_of q + 1)" by simp_all
  have "\<not> x < exponent_of q"
  proof
    assume "x < exponent_of q"
    then have "pow2 (x + 1) \<le> pow2 (exponent_of q)" by (intro pow2_mono) simp
    with lo assms(2) show False by simp
  qed
  moreover have "\<not> exponent_of q < x"
  proof
    assume "exponent_of q < x"
    then have "pow2 (exponent_of q + 1) \<le> pow2 x" by (intro pow2_mono) simp
    with hi assms(1) show False by simp
  qed
  ultimately show ?thesis by simp
qed

lemma round_half_even_of_int: "round_half_even (of_int z) = z"
  by (simp add: round_half_even_def)

lemma round_positive_representable:
  assumes m: "0 < m" "m < 2 ^ 53" and k: "- 1074 \<le> k" "k \<le> 971"
  shows "round_positive (of_int m * pow2 k) = Num (of_int m * pow2 k)"
proof -
  define q where "q = of_int m * pow2 k"
  define fl where "fl = floor_log2 m"
  from floor_log2_bounds [of m] m(1)
  have fl: "0 \<le> fl" "2 ^ nat fl \<le> m" "m < 2 * 2 ^ nat fl"
    by (simp_all add: fl_def)
  have rm: "(2::rat) ^ nat fl \<le> of_int m" "of_int m < (2::rat) * 2 ^ nat fl"
    using of_int_le_iff [of "2 ^ nat fl" m, where ?'a = rat]
      of_int_less_iff [of m "2 * 2 ^ nat fl", where ?'a = rat] fl(2,3)
    by simp_all
  have "pow2 (fl + k) = 2 ^ nat fl * pow2 k"
    by (simp add: pow2_add pow2_nat [OF fl(1)])
  then have lo: "pow2 (fl + k) \<le> q" and hi: "q < pow2 (fl + k + 1)"
    using rm pow2_pos [of k] by (simp_all add: q_def pow2_Suc)
  have e0: "exponent_of q = fl + k"
    using lo hi by (rule exponent_of_unique)
  have "(2::int) ^ nat fl < 2 ^ 53"
    using fl(2) m(2) by (rule le_less_trans)
  then have "nat fl < 53"
    by (rule power_less_imp_less_exp [rotated]) simp
  then have fl52: "fl \<le> 52" by simp
  define E where "E = max (fl + k - 52) (- 1074)"
  have Ek: "E \<le> k" using fl52 k(1) by (simp add: E_def)
  define j where "j = nat (k - E)"
  have pk: "pow2 k = pow2 E * 2 ^ j"
    using pow2_add [of E "k - E"] pow2_nat [of "k - E"] Ek by (simp add: j_def)
  have "q / pow2 E = of_int (m * 2 ^ j)"
    using pow2_pos [of E] by (simp add: q_def pk)
  then have n: "round_half_even (q / pow2 E) = m * 2 ^ j"
    by (simp only: round_half_even_of_int)
  have no: "\<not> (971 < E \<or> (E = 971 \<and> m * 2 ^ j = 2 ^ 53))"
  proof -
    have "m * 2 ^ j \<noteq> 2 ^ 53" if "E = 971"
    proof -
      from that Ek k(2) have "j = 0" by (simp add: j_def)
      with m(2) show ?thesis by simp
    qed
    with Ek k(2) show ?thesis by auto
  qed
  have "round_positive q = Num (of_int (m * 2 ^ j) * pow2 E)"
    using no by (simp add: round_positive_def e0 E_def [symmetric] n Let_def)
  also have "of_int (m * 2 ^ j) * pow2 E = q"
    by (simp add: q_def pk)
  finally show ?thesis by (simp add: q_def)
qed

text \<open>A double is left as it is.\<close>

lemma to_double_representable:
  assumes "\<bar>m\<bar> < 2 ^ 53" and "- 1074 \<le> k" and "k \<le> 971"
  shows "to_double (of_int m * pow2 k) = Num (of_int m * pow2 k)"
proof -
  consider "m = 0" | "0 < m" | "m < 0" by linarith
  then show ?thesis
  proof cases
    case 1
    then show ?thesis by (simp add: to_double_def)
  next
    case 2
    with assms have "round_positive (of_int m * pow2 k) = Num (of_int m * pow2 k)"
      by (intro round_positive_representable) simp_all
    moreover have "0 < of_int m * pow2 k"
      using 2 pow2_pos [of k] by simp
    ultimately show ?thesis by (simp add: to_double_def)
  next
    case 3
    with assms have "round_positive (of_int (- m) * pow2 k) = Num (of_int (- m) * pow2 k)"
      by (intro round_positive_representable) simp_all
    moreover have "of_int m * pow2 k < 0"
      using 3 pow2_pos [of k] by (simp add: mult_less_0_iff)
    ultimately show ?thesis by (simp add: to_double_def)
  qed
qed

lemma to_double_of_int:
  assumes "\<bar>n\<bar> \<le> 2 ^ 53"
  shows "to_double (of_int n) = Num (of_int n)"
proof (cases "\<bar>n\<bar> < 2 ^ 53")
  case True
  from to_double_representable [OF True, of 0] show ?thesis
    by (simp add: pow2_def)
next
  case False
  with assms have "n = 2 ^ 53 \<or> n = - (2 ^ 53)" by auto
  moreover have "to_double (of_int (2 ^ 52) * pow2 1) = Num (of_int (2 ^ 52) * pow2 1)"
    by (rule to_double_representable) simp_all
  moreover have "to_double (of_int (- (2 ^ 52)) * pow2 1) = Num (of_int (- (2 ^ 52)) * pow2 1)"
    by (rule to_double_representable) simp_all
  ultimately show ?thesis
    by (auto simp: pow2_one)
qed

text \<open>
  The rounded value of a positive number: a multiple of the unit in the last place, with
  a significand of at most 53 bits, at most half a unit away.
\<close>

lemma round_positive_result:
  assumes q: "0 < q" and v: "round_positive q = Num v"
  defines "E \<equiv> max (exponent_of q - 52) (- 1074)"
  defines "n \<equiv> round_half_even (q / pow2 E)"
  shows "v = of_int n * pow2 E" and "0 \<le> n" and "n \<le> 2 ^ 53"
    and "\<bar>v - q\<bar> \<le> pow2 E / 2" and "E \<le> 971" and "n = 2 ^ 53 \<longrightarrow> E < 971"
proof -
  from v have no: "\<not> (971 < E \<or> (E = 971 \<and> n = 2 ^ 53))"
    by (auto simp: round_positive_def Let_def E_def n_def split: if_splits)
  with v show vn: "v = of_int n * pow2 E"
    by (auto simp: round_positive_def Let_def E_def n_def split: if_splits)
  from no show "E \<le> 971" and "n = 2 ^ 53 \<longrightarrow> E < 971"
    by auto
  define x where "x = q / pow2 E"
  have near: "\<bar>of_int n - x\<bar> \<le> 1 / 2"
    unfolding n_def x_def by (rule round_half_even_near)
  have x0: "0 < x"
    using q pow2_pos [of E] by (simp add: x_def)
  have "q < pow2 (exponent_of q + 1)"
    using exponent_of_bounds [OF q] by simp
  also have "pow2 (exponent_of q + 1) \<le> pow2 (E + 53)"
    by (intro pow2_mono) (simp add: E_def)
  also have "pow2 (E + 53) = pow2 E * 2 ^ 53"
    using pow2_nat [of 53] by (simp add: pow2_add)
  finally have x53: "x < 2 ^ 53"
    using pow2_pos [of E] by (simp add: x_def field_simps)
  have "- 1 < (of_int n :: rat)"
    using near x0 by linarith
  then have "- 1 < n"
    using of_int_less_iff [of "- 1" n, where ?'a = rat] by simp
  then show "0 \<le> n" by simp
  have "(of_int n :: rat) < 2 ^ 53 + 1"
    using near x53 by linarith
  then have "(of_int n :: rat) < of_int (2 ^ 53 + 1)"
    by simp
  then have "n < 2 ^ 53 + 1"
    by (simp only: of_int_less_iff)
  then show "n \<le> 2 ^ 53" by simp
  have "v - q = (of_int n - x) * pow2 E"
    using pow2_pos [of E] by (simp add: vn x_def field_simps)
  then have "\<bar>v - q\<bar> = \<bar>of_int n - x\<bar> * pow2 E"
    using pow2_pos [of E] by (simp add: abs_mult)
  also have "\<dots> \<le> (1 / 2) * pow2 E"
    using near pow2_pos [of E] by (intro mult_right_mono) simp_all
  finally show "\<bar>v - q\<bar> \<le> pow2 E / 2" by simp
qed

lemma round_positive_idem:
  assumes q: "0 < q" and v: "round_positive q = Num v"
  shows "to_double v = Num v"
proof -
  define E where "E = max (exponent_of q - 52) (- 1074)"
  define n where "n = round_half_even (q / pow2 E)"
  note r = round_positive_result [OF q v, folded E_def n_def]
  have E: "- 1074 \<le> E" by (simp add: E_def)
  show ?thesis
  proof (cases "n = 2 ^ 53")
    case True
    with r(6) have "E + 1 \<le> 971" by simp
    moreover have "- 1074 \<le> E + 1" using E by simp
    moreover have "\<bar>2 ^ 52\<bar> < (2::int) ^ 53" by simp
    ultimately have "to_double (of_int (2 ^ 52) * pow2 (E + 1)) = Num (of_int (2 ^ 52) * pow2 (E + 1))"
      by (intro to_double_representable)
    moreover have "of_int (2 ^ 52) * pow2 (E + 1) = v"
      by (simp add: r(1) True pow2_Suc)
    ultimately show ?thesis by simp
  next
    case False
    with r(2,3) have "\<bar>n\<bar> < 2 ^ 53" by simp
    from to_double_representable [OF this E r(5)] show ?thesis
      by (simp add: r(1))
  qed
qed

text \<open>
  Rounding yields a double: rounding it again changes nothing. So the sum of two numbers
  is a double, and it is the exact sum when that is one.
\<close>

lemma to_double_idem:
  assumes "to_double q = Num v"
  shows "to_double v = Num v"
proof -
  consider "q = 0" | "0 < q" | "q < 0" by linarith
  then show ?thesis
  proof cases
    case 1
    with assms show ?thesis by (auto simp: to_double_def)
  next
    case 2
    with assms have "round_positive q = Num v" by (simp add: to_double_def)
    from round_positive_idem [OF 2 this] show ?thesis .
  next
    case 3
    with assms have n: "js_neg (round_positive (- q)) = Num v" by (simp add: to_double_def)
    then have rp: "round_positive (- q) = Num (- v)"
      by (cases "round_positive (- q)") simp_all
    from 3 have "0 < - q" by simp
    from round_positive_idem [OF this rp] have i: "to_double (- v) = Num (- v)" .
    show ?thesis
    proof (cases "v = 0")
      case True
      then show ?thesis by (simp add: to_double_def)
    next
      case False
      with i show ?thesis
        by (cases "0 < v"; cases "round_positive v"; cases "round_positive (- v)")
           (simp_all add: to_double_def)
    qed
  qed
qed

lemma to_double_near:
  assumes "to_double q = Num v"
  shows "\<bar>v - q\<bar> \<le> pow2 (max (exponent_of \<bar>q\<bar> - 52) (- 1074)) / 2"
proof -
  consider "q = 0" | "0 < q" | "q < 0" by linarith
  then show ?thesis
  proof cases
    case 1
    with assms have "v = 0" by (simp add: to_double_def)
    with 1 show ?thesis using pow2_pos [of "max (exponent_of \<bar>q\<bar> - 52) (- 1074)"] by simp
  next
    case 2
    with assms have "round_positive q = Num v" by (simp add: to_double_def)
    from round_positive_result(4) [OF 2 this] 2 show ?thesis by simp
  next
    case 3
    with assms have "js_neg (round_positive (- q)) = Num v" by (simp add: to_double_def)
    then have rp: "round_positive (- q) = Num (- v)"
      by (cases "round_positive (- q)") simp_all
    from 3 have "0 < - q" by simp
    from round_positive_result(4) [OF this rp] 3 show ?thesis
      by (simp add: abs_minus_commute)
  qed
qed

text \<open>Beyond the range of the doubles the result is the infinity, below it zero.\<close>

lemma to_double_overflow:
  assumes "pow2 1024 \<le> q"
  shows "to_double q = PosInf"
proof -
  have q: "0 < q" using assms pow2_pos [of 1024] by simp
  have "\<not> exponent_of q < 1024"
  proof
    assume "exponent_of q < 1024"
    then have "pow2 (exponent_of q + 1) \<le> pow2 1024" by (intro pow2_mono) simp
    with exponent_of_bounds [OF q] assms show False by simp
  qed
  then have "1023 < exponent_of q" by simp
  then have "round_positive q = PosInf"
    by (simp add: round_positive_def Let_def)
  with q show ?thesis by (simp add: to_double_def)
qed

lemma to_double_underflow:
  assumes "0 < q" and "q < pow2 (- 1075)"
  shows "to_double q = Num 0"
proof -
  have "\<not> - 1075 \<le> exponent_of q"
  proof
    assume "- 1075 \<le> exponent_of q"
    then have "pow2 (- 1075) \<le> pow2 (exponent_of q)" by (rule pow2_mono)
    with exponent_of_bounds [OF assms(1)] assms(2) show False by simp
  qed
  then have E: "max (exponent_of q - 52) (- 1074) = - 1074" by simp
  define x where "x = q / pow2 (- 1074)"
  have "pow2 (- 1074) = pow2 (- 1075) * 2"
    using pow2_Suc [of "- 1075"] by simp
  with assms have x: "0 < x" "x < 1 / 2"
    using pow2_pos [of "- 1075"] by (simp_all add: x_def field_simps)
  then have "\<lfloor>x\<rfloor> = 0" by (simp add: floor_eq_iff)
  with x have "round_half_even x = 0"
    by (simp add: round_half_even_def)
  then have "round_positive q = Num 0"
    by (simp add: round_positive_def E x_def [symmetric] Let_def)
  with assms(1) show ?thesis by (simp add: to_double_def)
qed

lemma plus_is_double:
  assumes "Num a + Num b = Num v"
  shows "to_double v = Num v"
  using assms to_double_idem [of "a + b" v] by simp

lemma plus_of_int:
  assumes "\<bar>a + b\<bar> \<le> 2 ^ 53"
  shows "Num (of_int a) + Num (of_int b) = Num (of_int (a + b))"
  using to_double_of_int [OF assms] by simp

subsection \<open>Examples\<close>

text \<open>
  Small integers are added exactly. Beyond \<open>2^53\<close> the sum is rounded, to the even
  significand when the exact value lies half way between two doubles; the value of
  \<open>0.1 + 0.2\<close> is not the value of \<open>0.3\<close>; and the order of the summands matters.
\<close>

lemma plus_examples:
  "Num 100 + Num 5 = Num 105"
  "Num (25 / 2) + Num (1 / 4) = Num (51 / 4)"
  "Num 7 + Num (- 7) = Num 0"
  "Num (2 ^ 53) + Num 1 = Num (2 ^ 53)"
  "Num (2 ^ 53) + Num 3 = Num (2 ^ 53 + 4)"
  "Num (2 ^ 53 + 2) + Num 1 = Num (2 ^ 53 + 4)"
  "(Num (2 ^ 53) + Num 1) + Num 1 = Num (2 ^ 53)"
  "Num (2 ^ 53) + (Num 1 + Num 1) = Num (2 ^ 53 + 2)"
  "PosInf + NegInf = NaN"
  "Num 1 + PosInf = PosInf"
  by code_simp+

lemma to_double_examples:
  "to_double (1 / 10) = Num (3602879701896397 / 2 ^ 55)"
  "to_double (3 / 10) = Num (5404319552844595 / 2 ^ 54)"
  "to_double (1 / 10) + to_double (2 / 10) = Num (5404319552844596 / 2 ^ 54)"
  "to_double (- (1 / 10)) = Num (- (3602879701896397 / 2 ^ 55))"
  by code_simp+

text \<open>Literals beyond the range of the doubles.\<close>

lemma Number_js_literals:
  "Number_js ''1e-400'' = Num 0"
  "Number_js ''1e400'' = PosInf"
proof -
  have "Number_js ''1e-400'' = to_double (scale10 1 (- 400))"
    by (simp add: Number_js_def trim_def is_ws_def non_decimal_def unsigned_decimal_def
          is_digit_def digits_value_def digit_of_def exponent_part_def Let_def)
  moreover have "0 < scale10 1 (- 400)" "scale10 1 (- 400) < pow2 (- 1075)"
    by (simp_all add: scale10_def pow2_def field_simps)
  ultimately show "Number_js ''1e-400'' = Num 0"
    by (simp add: to_double_underflow)
  have "Number_js ''1e400'' = to_double (scale10 1 400)"
    by (simp add: Number_js_def trim_def is_ws_def non_decimal_def unsigned_decimal_def
          is_digit_def digits_value_def digit_of_def exponent_part_def Let_def)
  moreover have "pow2 1024 \<le> scale10 1 400"
    by (simp add: scale10_def pow2_def)
  ultimately show "Number_js ''1e400'' = PosInf"
    by (simp add: to_double_overflow)
qed

section \<open>Properties of the daily aggregate\<close>

subsection \<open>What the loop computes\<close>

lemma map_of_modify:
  "map_of (modify k f agg) k' =
     (if k' = k then map_option f (map_of agg k) else map_of agg k')"
  by (induction agg) auto

lemma keys_modify: "map fst (modify k f agg) = map fst agg"
  by (induction agg) auto

lemma map_of_womack_step:
  "map_of (womack_step agg d) k =
     (if k = toLocaleDateString (date d) then Some (add_line d (row_or_new agg k))
      else map_of agg k)"
  by (auto simp: womack_step_def Let_def map_of_modify add_line_def row_or_new_def map_add_def
           split: option.splits)

lemma keys_womack_step:
  "map fst (womack_step agg d) =
     (if toLocaleDateString (date d) \<in> set (map fst agg) then map fst agg
      else map fst agg @ [toLocaleDateString (date d)])"
  by (auto simp: womack_step_def Let_def keys_modify map_of_eq_None_iff)

lemma distinct_womack_step:
  "distinct (map fst agg) \<Longrightarrow> distinct (map fst (womack_step agg d))"
  by (simp add: keys_womack_step)

lemma distinct_foldl_womack_step:
  "distinct (map fst agg) \<Longrightarrow> distinct (map fst (foldl womack_step agg xs))"
  by (induction xs arbitrary: agg) (simp_all add: distinct_womack_step)

lemma contrib_Nil [simp]: "contrib l fld k acc [] = acc"
  by (simp add: contrib_def accumulate_def)

lemma contrib_Cons:
  "contrib l fld k acc (x # xs) =
     contrib l fld k
       (if toLocaleDateString (date x) = k \<and> line x = l then acc + fld x else acc) xs"
  by (simp add: contrib_def accumulate_def)

lemma row_or_new_womack_step:
  "row_or_new (womack_step agg d) k =
     (if k = toLocaleDateString (date d) then add_line d (row_or_new agg k)
      else row_or_new agg k)"
  by (simp add: row_or_new_def map_of_womack_step)

text \<open>
  After the loop, each field of the row of a label holds what an accumulator holds that
  started from the field's value before the loop and received, in the order of the visit,
  the readings of that label and line that the loop has visited.
\<close>

lemma row_or_new_foldl:
  "name (row_or_new (foldl womack_step agg xs) k) = name (row_or_new agg k) \<and>
   Agua_L1 (row_or_new (foldl womack_step agg xs) k) =
     contrib 1 waterConsumption k (Agua_L1 (row_or_new agg k)) xs \<and>
   Aceite_L1 (row_or_new (foldl womack_step agg xs) k) =
     contrib 1 oilConsumptionTotal k (Aceite_L1 (row_or_new agg k)) xs \<and>
   Agua_L2 (row_or_new (foldl womack_step agg xs) k) =
     contrib 2 waterConsumption k (Agua_L2 (row_or_new agg k)) xs \<and>
   Aceite_L2 (row_or_new (foldl womack_step agg xs) k) =
     contrib 2 oilConsumptionTotal k (Aceite_L2 (row_or_new agg k)) xs"
proof (induction xs arbitrary: agg)
  case Nil
  show ?case by simp
next
  case (Cons x xs)
  show ?case
    using Cons.IH [of "womack_step agg x"]
    by (simp add: row_or_new_womack_step contrib_Cons add_line_def)
qed

text \<open>
  The readings of a bucket are visited in the order of the sort: by date, and in the order
  of the input among those of one date.
\<close>

lemma contrib_sortedData:
  "contrib l fld k acc (sortedData ds) =
     accumulate acc (map fld (sort_key (\<lambda>d. Date_valueOf (date d))
       (filter (\<lambda>d. toLocaleDateString (date d) = k \<and> line d = l) ds)))"
  by (simp add: contrib_def sortedData_def filter_sort)

lemma row_in_aggregated:
  assumes "r \<in> set (map snd (aggregatedData ds))"
  shows "row_or_new (aggregatedData ds) (name r) = r"
proof -
  from assms obtain k where kr: "(k, r) \<in> set (aggregatedData ds)" by auto
  have "distinct (map fst (aggregatedData ds))"
    unfolding aggregatedData_def by (rule distinct_foldl_womack_step) simp
  with kr have m: "map_of (aggregatedData ds) k = Some r" by simp
  then have rk: "row_or_new (aggregatedData ds) k = r" by (simp add: row_or_new_def)
  have "name (row_or_new (aggregatedData ds) k) = name (row_or_new [] k)"
    unfolding aggregatedData_def using row_or_new_foldl [of "[]" "sortedData ds" k] by simp
  then have "name r = k" using rk by (simp add: row_or_new_def new_row_def)
  with rk show ?thesis by simp
qed

text \<open>Every bucket of the aggregate, also one that the final \<open>slice\<close> drops.\<close>

lemma bucket_sums:
  assumes "r \<in> set (map snd (aggregatedData ds))"
  shows "Agua_L1 r = contrib 1 waterConsumption (name r) (Num 0) (sortedData ds)"
    and "Aceite_L1 r = contrib 1 oilConsumptionTotal (name r) (Num 0) (sortedData ds)"
    and "Agua_L2 r = contrib 2 waterConsumption (name r) (Num 0) (sortedData ds)"
    and "Aceite_L2 r = contrib 2 oilConsumptionTotal (name r) (Num 0) (sortedData ds)"
  using row_or_new_foldl [of "[]" "sortedData ds" "name r"] row_in_aggregated [OF assms]
  by (simp_all add: aggregatedData_def [symmetric] row_or_new_def new_row_def zero_jsnum_def)

lemma womackChartData_subset:
  "set (womackChartData ds) \<subseteq> set (map snd (aggregatedData ds))"
  unfolding womackChartData_def slice_last_def by (rule set_drop_subset)

text \<open>
  The values of a row of the chart: the accumulator starts at \<open>0\<close> and receives the field
  of every reading of the input that has the row's label and the line, none left out
  and none overwriting another, the earlier date first and the readings of one date in the
  order of the input. When all these readings are of one date, they are the readings of
  that date and line in the order of the input.
\<close>

lemma rows_accumulate_their_bucket:
  assumes "r \<in> set (womackChartData ds)"
  shows "Agua_L1 r = accumulate (Num 0) (map waterConsumption
           (sort_key (\<lambda>d. Date_valueOf (date d))
              (filter (\<lambda>d. toLocaleDateString (date d) = name r \<and> line d = 1) ds)))"
    and "Aceite_L1 r = accumulate (Num 0) (map oilConsumptionTotal
           (sort_key (\<lambda>d. Date_valueOf (date d))
              (filter (\<lambda>d. toLocaleDateString (date d) = name r \<and> line d = 1) ds)))"
    and "Agua_L2 r = accumulate (Num 0) (map waterConsumption
           (sort_key (\<lambda>d. Date_valueOf (date d))
              (filter (\<lambda>d. toLocaleDateString (date d) = name r \<and> line d = 2) ds)))"
    and "Aceite_L2 r = accumulate (Num 0) (map oilConsumptionTotal
           (sort_key (\<lambda>d. Date_valueOf (date d))
              (filter (\<lambda>d. toLocaleDateString (date d) = name r \<and> line d = 2) ds)))"
proof -
  from assms womackChartData_subset have "r \<in> set (map snd (aggregatedData ds))"
    by blast
  from bucket_sums [OF this] show
    "Agua_L1 r = accumulate (Num 0) (map waterConsumption
           (sort_key (\<lambda>d. Date_valueOf (date d))
              (filter (\<lambda>d. toLocaleDateString (date d) = name r \<and> line d = 1) ds)))"
    "Aceite_L1 r = accumulate (Num 0) (map oilConsumptionTotal
           (sort_key (\<lambda>d. Date_valueOf (date d))
              (filter (\<lambda>d. toLocaleDateString (date d) = name r \<and> line d = 1) ds)))"
    "Agua_L2 r = accumulate (Num 0) (map waterConsumption
           (sort_key (\<lambda>d. Date_valueOf (date d))
              (filter (\<lambda>d. toLocaleDateString (date d) = name r \<and> line d = 2) ds)))"
    "Aceite_L2 r = accumulate (Num 0) (map oilConsumptionTotal
           (sort_key (\<lambda>d. Date_valueOf (date d))
              (filter (\<lambda>d. toLocaleDateString (date d) = name r \<and> line d = 2) ds)))"
    by (simp_all only: contrib_sortedData)
qed

lemma sort_key_constant:
  "\<forall>x\<in>set xs. f x = c \<Longrightarrow> sort_key f xs = xs"
proof (induction xs)
  case Nil
  show ?case by simp
next
  case (Cons x xs)
  then have "sort_key f xs = xs" by simp
  moreover have "insort_key f x xs = x # xs"
    using Cons.prems by (cases xs) simp_all
  ultimately show ?case by simp
qed

lemma rows_of_one_date:
  assumes r: "r \<in> set (womackChartData ds)"
    and one: "\<forall>d\<in>set ds. toLocaleDateString (date d) = name r \<longrightarrow> date d = dt"
    and lab: "toLocaleDateString dt = name r"
  shows "Agua_L1 r = sum_of_date waterConsumption dt 1 ds"
    and "Aceite_L1 r = sum_of_date oilConsumptionTotal dt 1 ds"
    and "Agua_L2 r = sum_of_date waterConsumption dt 2 ds"
    and "Aceite_L2 r = sum_of_date oilConsumptionTotal dt 2 ds"
proof -
  have same: "filter (\<lambda>d. toLocaleDateString (date d) = name r \<and> line d = l) ds =
              filter (\<lambda>d. date d = dt \<and> line d = l) ds" for l
    using one lab by (intro filter_cong) auto
  have "sort_key (\<lambda>d. Date_valueOf (date d)) (filter (\<lambda>d. date d = dt \<and> line d = l) ds) =
        filter (\<lambda>d. date d = dt \<and> line d = l) ds" for l
    by (rule sort_key_constant [where c = "Date_valueOf dt"]) simp
  with same have
    "sort_key (\<lambda>d. Date_valueOf (date d))
       (filter (\<lambda>d. toLocaleDateString (date d) = name r \<and> line d = l) ds) =
     filter (\<lambda>d. date d = dt \<and> line d = l) ds" for l
    by simp
  with rows_accumulate_their_bucket [OF r] show
    "Agua_L1 r = sum_of_date waterConsumption dt 1 ds"
    "Aceite_L1 r = sum_of_date oilConsumptionTotal dt 1 ds"
    "Agua_L2 r = sum_of_date waterConsumption dt 2 ds"
    "Aceite_L2 r = sum_of_date oilConsumptionTotal dt 2 ds"
    by (simp_all add: sum_of_date_def)
qed

subsection \<open>The window when no two dates share a label\<close>

lemma keys_womack_step_Set_add:
  "map fst (womack_step agg d) = Set_add (map fst agg) (toLocaleDateString (date d))"
  by (simp add: keys_womack_step Set_add_def)

lemma keys_foldl_womack_step:
  "map fst (foldl womack_step agg xs) =
     foldl Set_add (map fst agg) (map (\<lambda>d. toLocaleDateString (date d)) xs)"
  by (induction xs arbitrary: agg) (simp_all add: keys_womack_step_Set_add)

lemma names_are_keys:
  "map name (map snd (aggregatedData ds)) = map fst (aggregatedData ds)"
proof -
  have "\<forall>kr\<in>set (aggregatedData ds). name (snd kr) = fst kr"
  proof
    fix kr assume kr: "kr \<in> set (aggregatedData ds)"
    have "distinct (map fst (aggregatedData ds))"
      unfolding aggregatedData_def by (rule distinct_foldl_womack_step) simp
    with kr have "map_of (aggregatedData ds) (fst kr) = Some (snd kr)" by simp
    then have "row_or_new (aggregatedData ds) (fst kr) = snd kr"
      by (simp add: row_or_new_def)
    moreover have "name (row_or_new (aggregatedData ds) (fst kr)) =
                   name (row_or_new [] (fst kr))"
      unfolding aggregatedData_def
      using row_or_new_foldl [of "[]" "sortedData ds" "fst kr"] by simp
    ultimately show "name (snd kr) = fst kr"
      by (simp add: row_or_new_def new_row_def)
  qed
  then show ?thesis by simp
qed

lemma set_foldl_Set_add: "set (foldl Set_add s xs) = set s \<union> set xs"
  by (induction xs arbitrary: s) (auto simp: Set_add_def)

lemma distinct_foldl_Set_add: "distinct s \<Longrightarrow> distinct (foldl Set_add s xs)"
  by (induction xs arbitrary: s) (auto simp: Set_add_def)

lemma foldl_Set_add_map:
  "inj_on f (set s \<union> set xs) \<Longrightarrow>
     foldl Set_add (map f s) (map f xs) = map f (foldl Set_add s xs)"
proof (induction xs arbitrary: s)
  case Nil
  show ?case by simp
next
  case (Cons x xs)
  have m: "(f x \<in> f ` set s) = (x \<in> set s)"
    using Cons.prems by (auto simp: inj_on_def)
  have "Set_add (map f s) (f x) = map f (Set_add s x)"
    using m by (simp add: Set_add_def)
  moreover have "inj_on f (set (Set_add s x) \<union> set xs)"
    using Cons.prems by (auto simp: Set_add_def intro: inj_on_subset)
  ultimately show ?case using Cons.IH [of "Set_add s x"] by simp
qed

lemma sorted_foldl_Set_add:
  "sorted (map f (s @ xs)) \<Longrightarrow> sorted (map f (foldl Set_add s xs))"
proof (induction xs arbitrary: s)
  case Nil
  then show ?case by simp
next
  case (Cons x xs)
  have "sorted (map f (Set_add s x @ xs))"
    using Cons.prems by (auto simp: Set_add_def sorted_append)
  from Cons.IH [OF this] show ?case by simp
qed

text \<open>
  The dates of the input, each once, in the order of the sort; the rows of the aggregate
  are named after the last seven of them when no two of them have the same label.
\<close>

lemma window_names:
  assumes "inj_on toLocaleDateString (date ` set ds)"
  shows "map name (womackChartData ds) =
           map toLocaleDateString (slice_last 7 (new_Set (map date (sortedData ds))))"
proof -
  let ?xs = "map date (sortedData ds)"
  have inj: "inj_on toLocaleDateString (set [] \<union> set ?xs)"
    using assms by (simp add: sortedData_def)
  have "map fst (aggregatedData ds) = new_Set (map toLocaleDateString ?xs)"
    by (simp add: aggregatedData_def keys_foldl_womack_step new_Set_def comp_def)
  also have "\<dots> = map toLocaleDateString (new_Set ?xs)"
    unfolding new_Set_def using foldl_Set_add_map [OF inj] by simp
  finally have k: "map fst (aggregatedData ds) = map toLocaleDateString (new_Set ?xs)" .
  have "map name (womackChartData ds) = slice_last 7 (map name (map snd (aggregatedData ds)))"
    by (simp add: womackChartData_def slice_last_def drop_map)
  also have "\<dots> = slice_last 7 (map toLocaleDateString (new_Set ?xs))"
    by (simp only: names_are_keys k)
  finally show ?thesis
    by (simp add: slice_last_def drop_map)
qed

lemma sorted_dates:
  "distinct (new_Set (map date (sortedData ds))) \<and>
   set (new_Set (map date (sortedData ds))) = date ` set ds \<and>
   sorted (map Date_valueOf (new_Set (map date (sortedData ds))))"
proof -
  let ?xs = "map date (sortedData ds)"
  have "sorted (map Date_valueOf ([] @ ?xs))"
    using sorted_sort_key [of "\<lambda>d. Date_valueOf (date d)" ds]
    by (simp add: sortedData_def comp_def)
  from sorted_foldl_Set_add [OF this] show ?thesis
    by (simp add: new_Set_def distinct_foldl_Set_add set_foldl_Set_add sortedData_def)
qed

text \<open>
  So the aggregate is the window that its title announces whenever the dates of the
  input have pairwise different labels (as the dates of one year have) and pairwise
  different time values (as calendar days have): with more than seven dates it has seven
  rows, named after seven dates of the input in strictly ascending order, and every
  other date of the input is earlier than these.
\<close>

lemma daily_window_without_label_clash:
  assumes lab: "inj_on toLocaleDateString (date ` set ds)"
    and tim: "inj_on Date_valueOf (date ` set ds)"
    and many: "7 < card (date ` set ds)"
  shows "\<exists>dates. length dates = 7 \<and>
           map name (womackChartData ds) = map toLocaleDateString dates \<and>
           sorted_wrt (\<lambda>a b. Date_valueOf a < Date_valueOf b) dates \<and>
           set dates \<subseteq> date ` set ds \<and>
           (\<forall>e\<in>date ` set ds - set dates. \<forall>d\<in>set dates. Date_valueOf e < Date_valueOf d)"
proof -
  define U where "U = new_Set (map date (sortedData ds))"
  define k where "k = length U - 7"
  from sorted_dates [of ds] have d: "distinct U" and s: "set U = date ` set ds"
    and o: "sorted (map Date_valueOf U)"
    by (simp_all add: U_def)
  from d s have len: "length U = card (date ` set ds)"
    by (metis distinct_card)
  from d tim s have "distinct (map Date_valueOf U)"
    by (simp add: distinct_map)
  with o have "sorted_wrt (<) (map Date_valueOf U)"
    by (simp add: strict_sorted_iff)
  then have strict: "sorted_wrt (\<lambda>a b. Date_valueOf a < Date_valueOf b) U"
    by (simp add: sorted_wrt_map)
  have split: "U = take k U @ drop k U" by simp
  from strict have "sorted_wrt (\<lambda>a b. Date_valueOf a < Date_valueOf b) (take k U @ drop k U)"
    by simp
  then have kept: "sorted_wrt (\<lambda>a b. Date_valueOf a < Date_valueOf b) (drop k U)"
    and before: "\<forall>e\<in>set (take k U). \<forall>d\<in>set (drop k U). Date_valueOf e < Date_valueOf d"
    unfolding sorted_wrt_append by blast+
  have "set U = set (take k U) \<union> set (drop k U)"
    by (metis split set_append)
  with s before
  have late: "\<forall>e\<in>date ` set ds - set (drop k U). \<forall>d\<in>set (drop k U).
                 Date_valueOf e < Date_valueOf d"
    by blast
  have "length (drop k U) = 7"
    using many len by (simp add: k_def)
  moreover have "map name (womackChartData ds) = map toLocaleDateString (drop k U)"
    using window_names [OF lab] by (simp add: U_def k_def slice_last_def)
  moreover have "set (drop k U) \<subseteq> date ` set ds"
    using s set_drop_subset [of k U] by simp
  ultimately show ?thesis
    using kept late by blast
qed

text \<open>The time value of some known days.\<close>

lemma Date_valueOf_examples:
  "Date_valueOf \<lparr>year = 1970, month = 1, day = 1\<rparr> = 0"
  "Date_valueOf \<lparr>year = 2000, month = 3, day = 1\<rparr> = 951868800000"
  "Date_valueOf \<lparr>year = 2024, month = 1, day = 5\<rparr> = 1704412800000"
  "Date_valueOf \<lparr>year = 2024, month = 2, day = 29\<rparr> = 1709164800000"
  "Date_valueOf \<lparr>year = 2024, month = 3, day = 1\<rparr> = 1709251200000"
  "Date_valueOf \<lparr>year = 2024, month = 12, day = 31\<rparr> = 1735603200000"
  "Date_valueOf \<lparr>year = 2025, month = 1, day = 1\<rparr> = 1735689600000"
  by (simp_all add: Date_valueOf_def days_from_civil_def)

subsection \<open>The claims\<close>

text \<open>
  Claim C3. The claim asks that the water value of a row be the sum of \<open>waterConsumption\<close>
  over the readings of the row's date and line, and likewise for the oil. The rows are
  keyed by the label, which has no year, so the claim fails where two dates of different
  years share a label: of the readings of 5 January 2024 (line 1, water 100, oil 40),
  5 January 2025 (line 1, water 5, oil 2) and 6 January 2025 (line 2, water 7, oil 3),
  the code makes the rows "5 ene" and "6 ene". The row "5 ene" holds water 105 and oil 42
  for line 1; the sums of 5 January 2025 are 5 and 2, those of 5 January 2024 are 100 and
  40.
\<close>

theorem daily_sums_merge_years:
  "womackChartData
     [daily 2024 1 5 1 100 40, daily 2025 1 5 1 5 2, daily 2025 1 6 2 7 3] =
     [row ''5 ene'' 105 0 42 0, row ''6 ene'' 0 7 0 3] \<and>
   toLocaleDateString \<lparr>year = 2024, month = 1, day = 5\<rparr> = ''5 ene'' \<and>
   toLocaleDateString \<lparr>year = 2025, month = 1, day = 5\<rparr> = ''5 ene'' \<and>
   sum_of_date waterConsumption \<lparr>year = 2025, month = 1, day = 5\<rparr> 1
     [daily 2024 1 5 1 100 40, daily 2025 1 5 1 5 2, daily 2025 1 6 2 7 3] = Num 5 \<and>
   sum_of_date oilConsumptionTotal \<lparr>year = 2025, month = 1, day = 5\<rparr> 1
     [daily 2024 1 5 1 100 40, daily 2025 1 5 1 5 2, daily 2025 1 6 2 7 3] = Num 2 \<and>
   sum_of_date waterConsumption \<lparr>year = 2024, month = 1, day = 5\<rparr> 1
     [daily 2024 1 5 1 100 40, daily 2025 1 5 1 5 2, daily 2025 1 6 2 7 3] = Num 100 \<and>
   sum_of_date oilConsumptionTotal \<lparr>year = 2024, month = 1, day = 5\<rparr> 1
     [daily 2024 1 5 1 100 40, daily 2025 1 5 1 5 2, daily 2025 1 6 2 7 3] = Num 40"
  by code_simp

text \<open>
  Claim C1. The claim asks for the seven latest distinct dates, one row each, in
  ascending order. The rows are keyed by the label, which has no year, so the claim
  fails on readings of eight distinct dates of which two are the same day of different
  years: 5 January 2024 (water 100) and 1 to 7 January 2025 (water 1 to 7). The claim's
  rows are those of 1 to 7 January 2025 in this order, with water 5 on 5 January. The
  code returns the row of "5 ene" first, holding 105, the water of both years.
\<close>

theorem daily_window_merges_years:
  "womackChartData
     [daily 2024 1 5 1 100 0, daily 2025 1 1 1 1 0, daily 2025 1 2 1 2 0,
      daily 2025 1 3 1 3 0, daily 2025 1 4 1 4 0, daily 2025 1 5 1 5 0,
      daily 2025 1 6 1 6 0, daily 2025 1 7 1 7 0] =
     [row ''5 ene'' 105 0 0 0, row ''1 ene'' 1 0 0 0, row ''2 ene'' 2 0 0 0,
      row ''3 ene'' 3 0 0 0, row ''4 ene'' 4 0 0 0, row ''6 ene'' 6 0 0 0,
      row ''7 ene'' 7 0 0 0] \<and>
   distinct (map date
     [daily 2024 1 5 1 100 0, daily 2025 1 1 1 1 0, daily 2025 1 2 1 2 0,
      daily 2025 1 3 1 3 0, daily 2025 1 4 1 4 0, daily 2025 1 5 1 5 0,
      daily 2025 1 6 1 6 0, daily 2025 1 7 1 7 0])"
  by code_simp

text \<open>
  Claim C10. The grouping key of the daily aggregate is the day and the abbreviated
  month, without the year: two dates that differ only in the year have the same key.
  So the readings of 5 January 2024 and of 5 January 2025 become one row that holds the
  sums of both; and of eight distinct dates, 5 March 2024 and 5 to 11 March 2025, no row
  is dropped by the window of seven, the two 5 March counting once.
\<close>

theorem daily_key_omits_year:
  "toLocaleDateString \<lparr>year = y, month = m, day = d\<rparr> =
     toLocaleDateString \<lparr>year = y', month = m, day = d\<rparr> \<and>
   womackChartData [daily 2024 1 5 1 100 40, daily 2025 1 5 1 50 10] =
     [row ''5 ene'' 150 0 50 0] \<and>
   womackChartData
     [daily 2024 3 5 2 10 1, daily 2025 3 5 2 20 2, daily 2025 3 6 2 1 0,
      daily 2025 3 7 2 1 0, daily 2025 3 8 2 1 0, daily 2025 3 9 2 1 0,
      daily 2025 3 10 2 1 0, daily 2025 3 11 2 1 0] =
     [row ''5 mar'' 0 30 0 3, row ''6 mar'' 0 1 0 0, row ''7 mar'' 0 1 0 0,
      row ''8 mar'' 0 1 0 0, row ''9 mar'' 0 1 0 0, row ''10 mar'' 0 1 0 0,
      row ''11 mar'' 0 1 0 0]"
proof -
  have "toLocaleDateString \<lparr>year = y, month = m, day = d\<rparr> =
     toLocaleDateString \<lparr>year = y', month = m, day = d\<rparr>"
    by (simp add: toLocaleDateString_def)
  moreover have "womackChartData [daily 2024 1 5 1 100 40, daily 2025 1 5 1 50 10] =
     [row ''5 ene'' 150 0 50 0]"
    by code_simp
  moreover have "womackChartData
     [daily 2024 3 5 2 10 1, daily 2025 3 5 2 20 2, daily 2025 3 6 2 1 0,
      daily 2025 3 7 2 1 0, daily 2025 3 8 2 1 0, daily 2025 3 9 2 1 0,
      daily 2025 3 10 2 1 0, daily 2025 3 11 2 1 0] =
     [row ''5 mar'' 0 30 0 3, row ''6 mar'' 0 1 0 0, row ''7 mar'' 0 1 0 0,
      row ''8 mar'' 0 1 0 0, row ''9 mar'' 0 1 0 0, row ''10 mar'' 0 1 0 0,
      row ''11 mar'' 0 1 0 0]"
    by code_simp
  ultimately show ?thesis by blast
qed

section \<open>Properties of the weekly comparison\<close>

subsection \<open>The record selected for a line\<close>

lemma latestWeekData_snoc:
  "latestWeekData (ds @ [d]) = latest_step (latestWeekData ds) d"
  by (simp add: latestWeekData_def)

lemma latestWeekData_None:
  "latestWeekData ds l = None \<longleftrightarrow> (\<forall>d\<in>set ds. line d \<noteq> l)"
proof (induction ds rule: rev_induct)
  case Nil
  show ?case by (simp add: latestWeekData_def)
next
  case (snoc x xs)
  then show ?case
    by (auto simp: latestWeekData_snoc latest_step_def split: option.splits)
qed

text \<open>
  The selected record splits the input: before it every record of the line starts
  strictly earlier, after it none starts later.
\<close>

lemma latestWeekData_first_max:
  "latestWeekData ds l = Some r \<Longrightarrow>
     \<exists>pre post. ds = pre @ r # post \<and> line r = l \<and>
       (\<forall>d\<in>set pre. line d = l \<longrightarrow>
          Date_valueOf (weekStartDate d) < Date_valueOf (weekStartDate r)) \<and>
       (\<forall>d\<in>set post. line d = l \<longrightarrow>
          Date_valueOf (weekStartDate d) \<le> Date_valueOf (weekStartDate r))"
proof (induction ds arbitrary: r rule: rev_induct)
  case Nil
  then show ?case by (simp add: latestWeekData_def)
next
  case (snoc x xs)
  let ?T = "\<lambda>d::iso_date WeeklyReading. Date_valueOf (weekStartDate d)"
  show ?case
  proof (cases "latestWeekData (xs @ [x]) l = latestWeekData xs l")
    case True
    with snoc.prems have old: "latestWeekData xs l = Some r" by simp
    from snoc.IH [OF old] obtain pre post where
      d: "xs = pre @ r # post" "line r = l"
         "\<forall>d\<in>set pre. line d = l \<longrightarrow> ?T d < ?T r"
         "\<forall>d\<in>set post. line d = l \<longrightarrow> ?T d \<le> ?T r"
      by blast
    have "line x = l \<longrightarrow> ?T x \<le> ?T r"
      using True old snoc.prems
      by (auto simp: latestWeekData_snoc latest_step_def split: option.splits if_splits)
    with d have "xs @ [x] = pre @ r # (post @ [x]) \<and> line r = l \<and>
       (\<forall>d\<in>set pre. line d = l \<longrightarrow> ?T d < ?T r) \<and>
       (\<forall>d\<in>set (post @ [x]). line d = l \<longrightarrow> ?T d \<le> ?T r)"
      by auto
    then show ?thesis by blast
  next
    case False
    then have x: "line x = l" "r = x"
      using snoc.prems
      by (auto simp: latestWeekData_snoc latest_step_def split: option.splits if_splits)
    have "\<forall>d\<in>set xs. line d = l \<longrightarrow> ?T d < ?T x"
    proof (cases "latestWeekData xs l")
      case None
      then show ?thesis by (simp add: latestWeekData_None)
    next
      case (Some cur)
      from snoc.IH [OF Some] obtain pre post where
        d: "xs = pre @ cur # post" "line cur = l"
           "\<forall>d\<in>set pre. line d = l \<longrightarrow> ?T d < ?T cur"
           "\<forall>d\<in>set post. line d = l \<longrightarrow> ?T d \<le> ?T cur"
        by blast
      have "?T cur < ?T x"
        using False Some x
        by (auto simp: latestWeekData_snoc latest_step_def split: option.splits if_splits)
      with d show ?thesis by fastforce
    qed
    with x have "xs @ [x] = xs @ r # [] \<and> line r = l \<and>
       (\<forall>d\<in>set xs. line d = l \<longrightarrow> ?T d < ?T r) \<and>
       (\<forall>d\<in>set []. line d = l \<longrightarrow> ?T d \<le> ?T r)"
      by simp
    then show ?thesis by blast
  qed
qed

text \<open>
  Claim C2, as the code has it. For every input and every line that has a record, the
  scan selects a record of that line whose week starts latest, and among the records
  that share this latest start it selects the first of the input, not the last: every
  record of the line before the selected one starts strictly earlier.
\<close>

theorem weekly_tie_first_seen_wins:
  assumes "d \<in> set bodymakerData"
  shows "\<exists>r pre post.
           latestWeekData bodymakerData (line d) = Some r \<and>
           bodymakerData = pre @ r # post \<and> line r = line d \<and>
           (\<forall>x\<in>set pre. line x = line d \<longrightarrow>
              Date_valueOf (weekStartDate x) < Date_valueOf (weekStartDate r)) \<and>
           (\<forall>x\<in>set post. line x = line d \<longrightarrow>
              Date_valueOf (weekStartDate x) \<le> Date_valueOf (weekStartDate r))"
proof -
  from assms have "latestWeekData bodymakerData (line d) \<noteq> None"
    by (auto simp: latestWeekData_None)
  then obtain r where "latestWeekData bodymakerData (line d) = Some r"
    by blast
  with latestWeekData_first_max [OF this] show ?thesis
    by blast
qed

theorem weekly_tie_first_seen_wins_witness:
  "weekly 2024 1 8 1 [(11, 9)] \<in> set [weekly 2024 1 8 1 [(11, 5)], weekly 2024 1 8 1 [(11, 9)]] \<and>
   (\<exists>r pre post.
      latestWeekData [weekly 2024 1 8 1 [(11, 5)], weekly 2024 1 8 1 [(11, 9)]]
        (line (weekly 2024 1 8 1 [(11, 9)])) = Some r \<and>
      [weekly 2024 1 8 1 [(11, 5)], weekly 2024 1 8 1 [(11, 9)]] = pre @ r # post \<and>
      line r = line (weekly 2024 1 8 1 [(11, 9)]) \<and>
      (\<forall>x\<in>set pre. line x = line (weekly 2024 1 8 1 [(11, 9)]) \<longrightarrow>
         Date_valueOf (weekStartDate x) < Date_valueOf (weekStartDate r)) \<and>
      (\<forall>x\<in>set post. line x = line (weekly 2024 1 8 1 [(11, 9)]) \<longrightarrow>
         Date_valueOf (weekStartDate x) \<le> Date_valueOf (weekStartDate r)))"
proof -
  have h: "weekly 2024 1 8 1 [(11, 9)]
             \<in> set [weekly 2024 1 8 1 [(11, 5)], weekly 2024 1 8 1 [(11, 9)]]"
    by simp
  from weekly_tie_first_seen_wins [OF h] h show ?thesis
    by blast
qed

text \<open>
  Two records of line 1 for the week of 8 January 2024, machine 11 with consumption 5 in
  the first and 9 in the second. The claim selects the second, the last seen. The scan
  keeps the first, and the chart shows 5.
\<close>

theorem weekly_tie_last_seen_counterexample:
  "latestWeekData [weekly 2024 1 8 1 [(11, 5)], weekly 2024 1 8 1 [(11, 9)]] 1
     = Some (weekly 2024 1 8 1 [(11, 5)]) \<and>
   latestWeekData [weekly 2024 1 8 1 [(11, 5)], weekly 2024 1 8 1 [(11, 9)]] 1
     \<noteq> Some (weekly 2024 1 8 1 [(11, 9)]) \<and>
   weekStartDate (weekly 2024 1 8 1 [(11, 5)]) = weekStartDate (weekly 2024 1 8 1 [(11, 9)]) \<and>
   bodymakerChartData [weekly 2024 1 8 1 [(11, 5)], weekly 2024 1 8 1 [(11, 9)]]
     = [bar ''BM 11'' 5 0]"
proof -
  have sel: "latestWeekData [weekly 2024 1 8 1 [(11, 5)], weekly 2024 1 8 1 [(11, 9)]] 1
     = Some (weekly 2024 1 8 1 [(11, 5)])"
    by (simp add: latestWeekData_def latest_step_def weekly_def)
  have ne: "weekly 2024 1 8 1 [(11, 5)] \<noteq> weekly 2024 1 8 1 [(11, 9)]"
    by (simp add: weekly_def)
  have wk: "weekStartDate (weekly 2024 1 8 1 [(11, 5)]) =
            weekStartDate (weekly 2024 1 8 1 [(11, 9)])"
    by (simp add: weekly_def)
  have chart: "bodymakerChartData [weekly 2024 1 8 1 [(11, 5)], weekly 2024 1 8 1 [(11, 9)]]
     = [bar ''BM 11'' 5 0]"
    by code_simp
  from sel ne wk chart show ?thesis by simp
qed

subsection \<open>The machines of the chart\<close>

lemma allMachines_sorted_union:
  "allMachines l1 l2 = sorted_list_of_set (machineId ` set l1 \<union> machineId ` set l2)"
proof -
  let ?ys = "new_Set (map machineId l1 @ map machineId l2)"
  have s: "set ?ys = machineId ` set l1 \<union> machineId ` set l2"
    by (simp add: new_Set_def set_foldl_Set_add)
  have d: "distinct ?ys"
    by (simp add: new_Set_def distinct_foldl_Set_add)
  have "sort ?ys = sorted_list_of_set (set ?ys)"
    using d by (simp add: sorted_list_of_set_sort_remdups distinct_remdups_id)
  then show ?thesis by (simp add: allMachines_def s)
qed

lemma consumption_absent:
  assumes "m \<notin> machineId ` set rs"
  shows "consumption_or_zero rs m = Num 0"
proof (cases "find (\<lambda>r. machineId r = m) rs")
  case None
  then show ?thesis by (simp add: consumption_or_zero_def)
next
  case (Some r)
  then have "r \<in> set rs \<and> machineId r = m"
    by (auto simp: find_Some_iff)
  with assms show ?thesis by auto
qed

lemma latestWeekData_selected:
  assumes "latestWeekData ds l = Some r"
  shows "r \<in> set ds \<and> line r = l \<and>
         (\<forall>d\<in>set ds. line d = l \<longrightarrow>
            Date_valueOf (weekStartDate d) \<le> Date_valueOf (weekStartDate r))"
proof -
  from latestWeekData_first_max [OF assms] obtain pre post where
    "ds = pre @ r # post" "line r = l"
    "\<forall>d\<in>set pre. line d = l \<longrightarrow>
       Date_valueOf (weekStartDate d) < Date_valueOf (weekStartDate r)"
    "\<forall>d\<in>set post. line d = l \<longrightarrow>
       Date_valueOf (weekStartDate d) \<le> Date_valueOf (weekStartDate r)"
    by blast
  then show ?thesis by fastforce
qed

text \<open>
  Claim C4. The rows of the weekly comparison are those of the machine identifiers found
  in the readings of the two selected records (\<open>lineData 1\<close> and \<open>lineData 2\<close>), each
  identifier once and in ascending numeric order; the name of a row is "BM" and the
  identifier; and a machine that the selected record of a line does not have gets
  consumption 0 for that line. The readings of a line are those of its selected record,
  a record of the input of that line whose week no record of the line starts after, and
  they are empty when the input has no record of the line.
\<close>

theorem weekly_rows_sorted_union:
  "bodymakerChartData bodymakerData =
     map (bar_of (lineData 1 bodymakerData) (lineData 2 bodymakerData))
       (sorted_list_of_set (machineId ` set (lineData 1 bodymakerData) \<union>
                            machineId ` set (lineData 2 bodymakerData))) \<and>
   name (bar_of (lineData 1 bodymakerData) (lineData 2 bodymakerData) m) =
     ''BM '' @ show_nat m \<and>
   (m \<notin> machineId ` set (lineData 1 bodymakerData) \<longrightarrow>
      Consumo_L1 (bar_of (lineData 1 bodymakerData) (lineData 2 bodymakerData) m) = Num 0) \<and>
   (m \<notin> machineId ` set (lineData 2 bodymakerData) \<longrightarrow>
      Consumo_L2 (bar_of (lineData 1 bodymakerData) (lineData 2 bodymakerData) m) = Num 0) \<and>
   (latestWeekData bodymakerData l = Some r \<longrightarrow>
      lineData l bodymakerData = readings r \<and> r \<in> set bodymakerData \<and> line r = l \<and>
      (\<forall>d\<in>set bodymakerData. line d = l \<longrightarrow>
         Date_valueOf (weekStartDate d) \<le> Date_valueOf (weekStartDate r))) \<and>
   (latestWeekData bodymakerData l = None \<longrightarrow>
      lineData l bodymakerData = [] \<and> (\<forall>d\<in>set bodymakerData. line d \<noteq> l))"
proof -
  have "latestWeekData bodymakerData l = Some r \<longrightarrow>
      lineData l bodymakerData = readings r \<and> r \<in> set bodymakerData \<and> line r = l \<and>
      (\<forall>d\<in>set bodymakerData. line d = l \<longrightarrow>
         Date_valueOf (weekStartDate d) \<le> Date_valueOf (weekStartDate r))"
    using latestWeekData_selected [of bodymakerData l r] by (simp add: lineData_def)
  moreover have "latestWeekData bodymakerData l = None \<longrightarrow>
      lineData l bodymakerData = [] \<and> (\<forall>d\<in>set bodymakerData. line d \<noteq> l)"
    using latestWeekData_None [of bodymakerData l] by (auto simp: lineData_def)
  ultimately show ?thesis
    by (simp add: bodymakerChartData_def Let_def allMachines_sorted_union bar_of_def
          consumption_absent)
qed

text \<open>
  Line 1 has machines 12 and 11 in its latest week, line 2 has machines 21 and 11, and
  an older record of line 2 has machine 25. The chart has the rows of 11, 12 and 21;
  machine 21 is absent from line 1 and machine 12 from line 2; line 3 has no record.
\<close>

theorem weekly_rows_sorted_union_witness:
  "bodymakerChartData
     [weekly 2024 1 1 2 [(25, 7)], weekly 2024 1 8 1 [(12, 3), (11, 9)],
      weekly 2024 1 8 2 [(21, 4), (11, 6)]] =
     [bar ''BM 11'' 9 6, bar ''BM 12'' 3 0, bar ''BM 21'' 0 4] \<and>
   21 \<notin> machineId ` set (lineData 1
     [weekly 2024 1 1 2 [(25, 7)], weekly 2024 1 8 1 [(12, 3), (11, 9)],
      weekly 2024 1 8 2 [(21, 4), (11, 6)]]) \<and>
   Consumo_L1 (bar_of
     (lineData 1 [weekly 2024 1 1 2 [(25, 7)], weekly 2024 1 8 1 [(12, 3), (11, 9)],
                  weekly 2024 1 8 2 [(21, 4), (11, 6)]])
     (lineData 2 [weekly 2024 1 1 2 [(25, 7)], weekly 2024 1 8 1 [(12, 3), (11, 9)],
                  weekly 2024 1 8 2 [(21, 4), (11, 6)]]) 21) = Num 0 \<and>
   12 \<notin> machineId ` set (lineData 2
     [weekly 2024 1 1 2 [(25, 7)], weekly 2024 1 8 1 [(12, 3), (11, 9)],
      weekly 2024 1 8 2 [(21, 4), (11, 6)]]) \<and>
   Consumo_L2 (bar_of
     (lineData 1 [weekly 2024 1 1 2 [(25, 7)], weekly 2024 1 8 1 [(12, 3), (11, 9)],
                  weekly 2024 1 8 2 [(21, 4), (11, 6)]])
     (lineData 2 [weekly 2024 1 1 2 [(25, 7)], weekly 2024 1 8 1 [(12, 3), (11, 9)],
                  weekly 2024 1 8 2 [(21, 4), (11, 6)]]) 12) = Num 0 \<and>
   latestWeekData
     [weekly 2024 1 1 2 [(25, 7)], weekly 2024 1 8 1 [(12, 3), (11, 9)],
      weekly 2024 1 8 2 [(21, 4), (11, 6)]] 2 = Some (weekly 2024 1 8 2 [(21, 4), (11, 6)]) \<and>
   lineData 2
     [weekly 2024 1 1 2 [(25, 7)], weekly 2024 1 8 1 [(12, 3), (11, 9)],
      weekly 2024 1 8 2 [(21, 4), (11, 6)]] = readings (weekly 2024 1 8 2 [(21, 4), (11, 6)]) \<and>
   latestWeekData
     [weekly 2024 1 1 2 [(25, 7)], weekly 2024 1 8 1 [(12, 3), (11, 9)],
      weekly 2024 1 8 2 [(21, 4), (11, 6)]] 3 = None \<and>
   lineData 3
     [weekly 2024 1 1 2 [(25, 7)], weekly 2024 1 8 1 [(12, 3), (11, 9)],
      weekly 2024 1 8 2 [(21, 4), (11, 6)]] = []"
proof -
  let ?ds = "[weekly 2024 1 1 2 [(25, 7)], weekly 2024 1 8 1 [(12, 3), (11, 9)],
              weekly 2024 1 8 2 [(21, 4), (11, 6)]]"
  let ?r2 = "weekly 2024 1 8 2 [(21, 4), (11, 6)]"
  have l1: "lineData 1 ?ds = readings (weekly 2024 1 8 1 [(12, 3), (11, 9)])"
    by code_simp
  have s2: "latestWeekData ?ds 2 = Some ?r2"
    by code_simp
  have s3: "latestWeekData ?ds 3 = None"
    by code_simp
  note T2 = weekly_rows_sorted_union [of ?ds 21 2 ?r2]
  note T3 = weekly_rows_sorted_union [of ?ds 12 3 ?r2]
  from T2 s2 have l2: "lineData 2 ?ds = readings ?r2" by blast
  from T3 s3 have l3: "lineData 3 ?ds = []" by blast
  have a: "21 \<notin> machineId ` set (lineData 1 ?ds)"
    unfolding l1 by (simp add: weekly_def)
  have b: "12 \<notin> machineId ` set (lineData 2 ?ds)"
    unfolding l2 by (simp add: weekly_def)
  have c: "bodymakerChartData ?ds = [bar ''BM 11'' 9 6, bar ''BM 12'' 3 0, bar ''BM 21'' 0 4]"
    by code_simp
  from T2 a have za: "Consumo_L1 (bar_of (lineData 1 ?ds) (lineData 2 ?ds) 21) = Num 0"
    by blast
  from T3 b have zb: "Consumo_L2 (bar_of (lineData 1 ?ds) (lineData 2 ?ds) 12) = Num 0"
    by blast
  from a b c za zb s2 l2 s3 l3 show ?thesis
    by blast
qed

section \<open>Properties of the submission forms\<close>

subsection \<open>The daily form\<close>

text \<open>
  Claim C6. When the date, the line, the water, the total oil or the partial oil of the
  daily form is empty, the submission calls \<open>addDoc\<close> not at all, leaves the collection as
  it was and shows the validation message; and a submission that calls \<open>addDoc\<close> had all
  five fields filled.
\<close>

theorem daily_submit_requires_all_fields:
  "(st_date s = [] \<or> st_line s = 0 \<or> st_water s = [] \<or> st_oilTotal s = [] \<or>
    st_oilPartial s = [] \<longrightarrow>
      WomackControl_handleSubmit accepts now s coll =
        \<lparr>form = s\<lparr>st_message := ErrorCamposObligatorios\<rparr>, collection = coll,
         addDoc_calls = []\<rparr>) \<and>
   (addDoc_calls (WomackControl_handleSubmit accepts now s coll) \<noteq> [] \<longrightarrow>
      st_date s \<noteq> [] \<and> st_line s \<noteq> 0 \<and> st_water s \<noteq> [] \<and> st_oilTotal s \<noteq> [] \<and>
      st_oilPartial s \<noteq> [])"
  by (auto simp: WomackControl_handleSubmit_def Let_def addDoc_def)

text \<open>
  A form without the water is refused; the same form with water 150 leads to one call of
  \<open>addDoc\<close>, here accepted by the store.
\<close>

theorem daily_submit_requires_all_fields_witness:
  "st_water \<lparr>st_line = 1, st_message = NoMessage, st_isLoading = False,
      st_date = ''2024-01-05'', st_water = [], st_oilTotal = ''50'',
      st_oilPartial = ''25''\<rparr> = [] \<and>
   WomackControl_handleSubmit True ''t''
     \<lparr>st_line = 1, st_message = NoMessage, st_isLoading = False,
      st_date = ''2024-01-05'', st_water = [], st_oilTotal = ''50'',
      st_oilPartial = ''25''\<rparr> [] =
     \<lparr>form = \<lparr>st_line = 1, st_message = ErrorCamposObligatorios, st_isLoading = False,
              st_date = ''2024-01-05'', st_water = [], st_oilTotal = ''50'',
              st_oilPartial = ''25''\<rparr>,
      collection = [], addDoc_calls = []\<rparr> \<and>
   addDoc_calls (WomackControl_handleSubmit True ''t''
     \<lparr>st_line = 1, st_message = NoMessage, st_isLoading = False,
      st_date = ''2024-01-05'', st_water = ''150'', st_oilTotal = ''50'',
      st_oilPartial = ''25''\<rparr> []) =
     [\<lparr>line = 1, createdAt = ''t'', date = ''2024-01-05'', waterConsumption = Num 150,
       oilConsumptionTotal = Num 50, oilConsumptionPartial = Num 25\<rparr>] \<and>
   st_water \<lparr>st_line = 1, st_message = NoMessage, st_isLoading = False,
      st_date = ''2024-01-05'', st_water = ''150'', st_oilTotal = ''50'',
      st_oilPartial = ''25''\<rparr> \<noteq> []"
proof -
  let ?bad = "\<lparr>st_line = 1, st_message = NoMessage, st_isLoading = False,
      st_date = ''2024-01-05'', st_water = [], st_oilTotal = ''50'',
      st_oilPartial = ''25''\<rparr>"
  let ?good = "\<lparr>st_line = 1, st_message = NoMessage, st_isLoading = False,
      st_date = ''2024-01-05'', st_water = ''150'', st_oilTotal = ''50'',
      st_oilPartial = ''25''\<rparr>"
  have n: "Number_js ''150'' = Num 150" "Number_js ''50'' = Num 50" "Number_js ''25'' = Num 25"
    by code_simp+
  have calls: "addDoc_calls (WomackControl_handleSubmit True ''t'' ?good []) =
     [\<lparr>line = 1, createdAt = ''t'', date = ''2024-01-05'', waterConsumption = Num 150,
       oilConsumptionTotal = Num 50, oilConsumptionPartial = Num 25\<rparr>]"
    by (simp add: WomackControl_handleSubmit_def Let_def addDoc_def n)
  from daily_submit_requires_all_fields [of ?bad True "''t''" "[]"]
       daily_submit_requires_all_fields [of ?good True "''t''" "[]"] calls
  show ?thesis by simp
qed

subsection \<open>The weekly form\<close>

lemma form_readings_filter_map:
  "form_readings cs =
     map (\<lambda>(k, v). \<lparr>machineId = k, consumption = Number_js v\<rparr>)
       (filter (\<lambda>(k, v). js_gt (Number_js v) (Num 0)) cs)"
  by (induction cs) (auto simp: form_readings_def)

lemma Number_js_blank: "Number_js [] = Num 0"
  by (simp add: Number_js_def trim_def)

text \<open>
  Claim C5. The readings of a weekly submission are the entries of the form, mapped to
  numbers, of those and only those entries whose value is a number above zero: a blank
  value is the number 0 and is left out, as is every value that is zero or below. When
  no reading is left or the week is empty, the submission shows the validation message,
  calls \<open>addDoc\<close> not at all and leaves the collection as it was. Otherwise it calls
  \<open>addDoc\<close> once, with a document whose readings are exactly those, and the collection
  gains this one document (none when the store rejects the write).
\<close>

theorem weekly_submit_filters_and_validates:
  "form_readings (st_consumptions s) =
     map (\<lambda>(k, v). \<lparr>machineId = k, consumption = Number_js v\<rparr>)
       (filter (\<lambda>(k, v). js_gt (Number_js v) (Num 0)) (st_consumptions s)) \<and>
   \<not> js_gt (Number_js []) (Num 0) \<and>
   (Number_js v = Num q \<and> q \<le> 0 \<longrightarrow> \<not> js_gt (Number_js v) (Num 0)) \<and>
   (st_week s = [] \<or> form_readings (st_consumptions s) = [] \<longrightarrow>
      BodymakerControl_handleSubmit accepts now s coll =
        \<lparr>form = s\<lparr>st_message := ErrorSemanaConsumo\<rparr>, collection = coll,
         addDoc_calls = []\<rparr>) \<and>
   (st_week s \<noteq> [] \<and> form_readings (st_consumptions s) \<noteq> [] \<longrightarrow>
      addDoc_calls (BodymakerControl_handleSubmit accepts now s coll) =
        [\<lparr>line = st_line s, createdAt = now, weekStartDate = st_week s,
          readings = form_readings (st_consumptions s)\<rparr>] \<and>
      collection (BodymakerControl_handleSubmit accepts now s coll) =
        (if accepts
         then coll @ [\<lparr>line = st_line s, createdAt = now, weekStartDate = st_week s,
                       readings = form_readings (st_consumptions s)\<rparr>]
         else coll))"
proof -
  have "form_readings (st_consumptions s) =
     map (\<lambda>(k, v). \<lparr>machineId = k, consumption = Number_js v\<rparr>)
       (filter (\<lambda>(k, v). js_gt (Number_js v) (Num 0)) (st_consumptions s))"
    by (rule form_readings_filter_map)
  moreover have "\<not> js_gt (Number_js []) (Num 0)"
    by (simp add: Number_js_blank)
  moreover have "Number_js v = Num q \<and> q \<le> 0 \<longrightarrow> \<not> js_gt (Number_js v) (Num 0)"
    by auto
  moreover have "st_week s = [] \<or> form_readings (st_consumptions s) = [] \<longrightarrow>
      BodymakerControl_handleSubmit accepts now s coll =
        \<lparr>form = s\<lparr>st_message := ErrorSemanaConsumo\<rparr>, collection = coll,
         addDoc_calls = []\<rparr>"
    by (auto simp: BodymakerControl_handleSubmit_def Let_def)
  moreover have "st_week s \<noteq> [] \<and> form_readings (st_consumptions s) \<noteq> [] \<longrightarrow>
      addDoc_calls (BodymakerControl_handleSubmit accepts now s coll) =
        [\<lparr>line = st_line s, createdAt = now, weekStartDate = st_week s,
          readings = form_readings (st_consumptions s)\<rparr>] \<and>
      collection (BodymakerControl_handleSubmit accepts now s coll) =
        (if accepts
         then coll @ [\<lparr>line = st_line s, createdAt = now, weekStartDate = st_week s,
                       readings = form_readings (st_consumptions s)\<rparr>]
         else coll)"
    by (auto simp: BodymakerControl_handleSubmit_def Let_def addDoc_def)
  ultimately show ?thesis by blast
qed

text \<open>
  A form of line 1 where every input is blank or zero is refused. With 3.5 for machine
  12, a blank, a zero and a negative value elsewhere, one document with the single
  reading of machine 12 is written.
\<close>

theorem weekly_submit_filters_and_validates_witness:
  "form_readings [(11, []), (12, ''0''), (13, [])] = [] \<and>
   BodymakerControl_handleSubmit True ''t''
     \<lparr>st_line = 1, st_message = NoMessage, st_isLoading = False, st_week = ''2024-01-08'',
      st_consumptions = [(11, []), (12, ''0''), (13, [])]\<rparr> [] =
     \<lparr>form = \<lparr>st_line = 1, st_message = ErrorSemanaConsumo, st_isLoading = False,
              st_week = ''2024-01-08'',
              st_consumptions = [(11, []), (12, ''0''), (13, [])]\<rparr>,
      collection = [], addDoc_calls = []\<rparr> \<and>
   Number_js ''-2'' = Num (- 2) \<and> \<not> js_gt (Number_js ''-2'') (Num 0) \<and>
   form_readings [(11, []), (12, ''3.5''), (13, ''0''), (14, ''-2'')] =
     [\<lparr>machineId = 12, consumption = Num (7 / 2)\<rparr>] \<and>
   collection (BodymakerControl_handleSubmit True ''t''
     \<lparr>st_line = 1, st_message = NoMessage, st_isLoading = False, st_week = ''2024-01-08'',
      st_consumptions = [(11, []), (12, ''3.5''), (13, ''0''), (14, ''-2'')]\<rparr> []) =
     [\<lparr>line = 1, createdAt = ''t'', weekStartDate = ''2024-01-08'',
       readings = [\<lparr>machineId = 12, consumption = Num (7 / 2)\<rparr>]\<rparr>]"
proof -
  let ?bad = "\<lparr>st_line = 1, st_message = NoMessage, st_isLoading = False,
      st_week = ''2024-01-08'', st_consumptions = [(11, []), (12, ''0''), (13, [])]\<rparr>"
  let ?good = "\<lparr>st_line = 1, st_message = NoMessage, st_isLoading = False,
      st_week = ''2024-01-08'',
      st_consumptions = [(11, []), (12, ''3.5''), (13, ''0''), (14, ''-2'')]\<rparr>"
  have e: "form_readings [(11, []), (12, ''0''), (13, [])] = []"
    by code_simp
  have m: "Number_js ''-2'' = Num (- 2)"
    by code_simp
  have r: "form_readings [(11, []), (12, ''3.5''), (13, ''0''), (14, ''-2'')] =
     [\<lparr>machineId = 12, consumption = Num (7 / 2)\<rparr>]"
    by code_simp
  from weekly_submit_filters_and_validates [of ?bad "''-2''" "- 2" True "''t''" "[]"]
       weekly_submit_filters_and_validates [of ?good "''-2''" "- 2" True "''t''" "[]"] e m r
  show ?thesis by simp
qed

subsection \<open>The machines of an accepted weekly document\<close>

lemma keys_obj_set: "fst ` set (obj_set k v kvs) = insert k (fst ` set kvs)"
  by (induction k v kvs rule: obj_set.induct) (simp_all add: insert_commute)

lemma keys_foldl_obj_set:
  "fst ` set (foldl (\<lambda>acc machineId. obj_set machineId [] acc) acc ms) =
     fst ` set acc \<union> set ms"
  by (induction ms arbitrary: acc) (simp_all add: keys_obj_set)

lemma keys_blank_consumptions: "fst ` set (blank_consumptions ms) = set ms"
  by (simp add: blank_consumptions_def keys_foldl_obj_set)

lemma form_readings_from_keys:
  "r \<in> set (form_readings cs) \<Longrightarrow>
     machineId r \<in> fst ` set cs \<and> js_gt (consumption r) (Num 0)"
  by (force simp: form_readings_def)

lemma set_machines: "set (machines lineNo) = (if lineNo = 1 then {11..18} else {21..28})"
  by (auto simp: machines_def)

lemma handleSubmit_keeps_keys:
  "keys_inv s \<Longrightarrow> keys_inv (form (BodymakerControl_handleSubmit accepts now s coll))"
  by (auto simp: BodymakerControl_handleSubmit_def Let_def keys_inv_def addDoc_def
        keys_blank_consumptions)

lemma handleSubmit_docs_ok:
  assumes "keys_inv s" and "\<forall>d\<in>set coll. accepted_ok d"
  shows "\<forall>d\<in>set (collection (BodymakerControl_handleSubmit accepts now s coll)).
           accepted_ok d"
proof -
  have "accepted_ok \<lparr>line = st_line s, createdAt = now, weekStartDate = st_week s,
                      readings = form_readings (st_consumptions s)\<rparr>"
    using assms(1) form_readings_from_keys [of _ "st_consumptions s"]
    unfolding accepted_ok_def keys_inv_def set_machines
    by (auto split: if_splits)
  with assms(2) show ?thesis
    by (auto simp: BodymakerControl_handleSubmit_def Let_def addDoc_def)
qed

lemma step_keeps_invariant:
  assumes "keys_inv (control_state sys)" and "\<forall>d\<in>set (entries sys). accepted_ok d"
  shows "keys_inv (control_state (step sys ev)) \<and>
         (\<forall>d\<in>set (entries (step sys ev)). accepted_ok d)"
proof (cases ev)
  case (SetWeek w)
  with assms show ?thesis by (simp add: keys_inv_def)
next
  case (SetLine lineNo)
  with assms show ?thesis by (simp add: keys_inv_def keys_blank_consumptions)
next
  case (ConsumptionChange m v)
  with assms show ?thesis by (auto simp: keys_inv_def keys_obj_set)
next
  case (Submit accepts now)
  with assms handleSubmit_keeps_keys [of "control_state sys" accepts now "entries sys"]
    handleSubmit_docs_ok [of "control_state sys" "entries sys" accepts now]
  show ?thesis by (simp add: Let_def)
qed

lemma run_invariant:
  "keys_inv (control_state (run monday evs)) \<and>
   (\<forall>d\<in>set (entries (run monday evs)). accepted_ok d)"
proof (induction evs rule: rev_induct)
  case Nil
  show ?case
    by (simp add: run_def initial_system_def keys_inv_def keys_blank_consumptions)
next
  case (snoc ev evs)
  then show ?case
    using step_keeps_invariant [of "run monday evs" ev] by (simp add: run_def)
qed

text \<open>
  Claim C7. Whatever is done with the weekly form, every document that it has written to
  the collection has, when its line is 1, only machines 11 to 18 in its readings, when
  its line is 2, only machines 21 to 28, and only consumptions above zero.
\<close>

theorem weekly_documents_have_line_machines:
  assumes "doc \<in> set (entries (run monday evs))"
  shows "(line doc = 1 \<longrightarrow> (\<forall>r\<in>set (readings doc). machineId r \<in> {11..18})) \<and>
         (line doc = 2 \<longrightarrow> (\<forall>r\<in>set (readings doc). machineId r \<in> {21..28})) \<and>
         (\<forall>r\<in>set (readings doc). js_gt (consumption r) (Num 0))"
  using assms run_invariant [of monday evs] by (auto simp: accepted_ok_def)

text \<open>
  The user types 3.5 for machine 12, switches to line 2 without submitting, types 7 for
  machine 28 and submits: the document of line 2 has the reading of machine 28 alone.
\<close>

theorem weekly_documents_have_line_machines_witness:
  "\<lparr>line = 2, createdAt = ''t'', weekStartDate = ''2024-01-08'',
     readings = [\<lparr>machineId = 28, consumption = Num 7\<rparr>]\<rparr>
     \<in> set (entries (run ''2024-01-08''
         [ConsumptionChange 12 ''3.5'', SetLine 2, ConsumptionChange 28 ''7'',
          Submit True ''t''])) \<and>
   machineId \<lparr>machineId = 28, consumption = Num 7\<rparr> \<in> {21..28} \<and>
   js_gt (consumption \<lparr>machineId = 28, consumption = Num 7\<rparr>) (Num 0)"
proof -
  have h: "\<lparr>line = 2, createdAt = ''t'', weekStartDate = ''2024-01-08'',
     readings = [\<lparr>machineId = 28, consumption = Num 7\<rparr>]\<rparr>
     \<in> set (entries (run ''2024-01-08''
         [ConsumptionChange 12 ''3.5'', SetLine 2, ConsumptionChange 28 ''7'',
          Submit True ''t'']))"
    by code_simp
  from weekly_documents_have_line_machines [OF h] h show ?thesis
    by simp
qed

section \<open>Properties of the identity bootstrap\<close>

lemma ready_needs_signal:
  "isAuthReady (foldl apply_effect st es) \<Longrightarrow> isAuthReady st \<or> SetIsAuthReady \<in> set es"
proof (induction es arbitrary: st)
  case Nil
  then show ?case by simp
next
  case (Cons e es)
  from Cons.IH [of "apply_effect st e"] Cons.prems show ?case
    by (cases e) auto
qed

lemma one_session_before_signal:
  "SetIsAuthReady \<in> set (bootstrap cfg idp tok) \<Longrightarrow>
     \<exists>u. established_before_ready (currentUser idp) (bootstrap cfg idp tok) = [u]"
  by (auto simp: bootstrap_def auth_callback_def anonymous_then_ready_def
        established_before_ready_def Let_def split: option.splits if_splits)

text \<open>
  A provider with no session that rejects the token and rejects the anonymous sign-in as
  well, as a device without network does: the handler logs the error, the second sign-in
  is rejected outside every \<open>try\<close>, and \<open>setIsAuthReady(true)\<close> is never reached. No session
  is established and the hook stays not ready.
\<close>

theorem exchange_failure_not_ready_counterexample:
  "currentUser \<lparr>currentUser = None, signInWithCustomToken = (\<lambda>t. None),
       signInAnonymously = None\<rparr> = None \<and>
   signInWithCustomToken \<lparr>currentUser = None, signInWithCustomToken = (\<lambda>t. None),
       signInAnonymously = None\<rparr> ''tok'' = None \<and>
   bootstrap True \<lparr>currentUser = None, signInWithCustomToken = (\<lambda>t. None),
       signInAnonymously = None\<rparr> (Some ''tok'') =
     [SignInRejected, ConsoleError, SignInRejected] \<and>
   signed_in (bootstrap True \<lparr>currentUser = None, signInWithCustomToken = (\<lambda>t. None),
       signInAnonymously = None\<rparr> (Some ''tok'')) = [] \<and>
   useFirebaseAuth True \<lparr>currentUser = None, signInWithCustomToken = (\<lambda>t. None),
       signInAnonymously = None\<rparr> (Some ''tok'') =
     \<lparr>user = None, isAuthReady = False\<rparr>"
  by (simp add: useFirebaseAuth_def bootstrap_def auth_callback_def anonymous_then_ready_def)

text \<open>
  Claim C8, amended. With no prior session and a bootstrap credential whose exchange is
  rejected, the handler logs the error to the console and goes on exactly as the handler
  without a credential does, with the anonymous sign-in; the state that the hook returns
  is the one it returns without a credential, so the failure is not shown. Readiness is
  signalled when, and only when, the provider grants the anonymous session: then the hook
  is ready with the anonymous session as its user; when the provider rejects the anonymous
  sign-in too, no session is established and the hook is never ready. On every path of
  the bootstrap, with or without configuration, prior session or credential, when
  readiness is signalled exactly one session is established before the signal: the prior
  one, the authenticated user of the exchange, or the anonymous session.
\<close>

theorem exchange_failure_falls_back_to_anonymous:
  assumes "currentUser idp = None"
      and "token \<noteq> []"
      and "signInWithCustomToken idp token = None"
  shows "auth_callback idp (Some token) (currentUser idp) =
           [SignInRejected, ConsoleError] @ auth_callback idp None (currentUser idp) \<and>
         auth_callback idp None (currentUser idp) = anonymous_then_ready idp \<and>
         useFirebaseAuth True idp (Some token) = useFirebaseAuth True idp None \<and>
         useFirebaseAuth True idp (Some token) =
           \<lparr>user = map_option AnonymousSession (signInAnonymously idp),
            isAuthReady = (signInAnonymously idp \<noteq> None)\<rparr> \<and>
         (isAuthReady (useFirebaseAuth cfg idp' tok') \<longrightarrow>
            SetIsAuthReady \<in> set (bootstrap cfg idp' tok')) \<and>
         (SetIsAuthReady \<in> set (bootstrap cfg idp' tok') \<longrightarrow>
            (\<exists>u. established_before_ready (currentUser idp') (bootstrap cfg idp' tok') = [u]))"
proof -
  have a: "auth_callback idp (Some token) (currentUser idp) =
           [SignInRejected, ConsoleError] @ auth_callback idp None (currentUser idp)"
    using assms by (simp add: auth_callback_def)
  have b: "auth_callback idp None (currentUser idp) = anonymous_then_ready idp"
    using assms by (simp add: auth_callback_def)
  have c: "useFirebaseAuth True idp (Some token) = useFirebaseAuth True idp None"
    using assms
    by (auto simp: useFirebaseAuth_def bootstrap_def auth_callback_def
          anonymous_then_ready_def split: option.splits)
  have d: "useFirebaseAuth True idp (Some token) =
           \<lparr>user = map_option AnonymousSession (signInAnonymously idp),
            isAuthReady = (signInAnonymously idp \<noteq> None)\<rparr>"
    using assms
    by (auto simp: useFirebaseAuth_def bootstrap_def auth_callback_def
          anonymous_then_ready_def split: option.splits)
  have e: "isAuthReady (useFirebaseAuth cfg idp' tok') \<longrightarrow>
            SetIsAuthReady \<in> set (bootstrap cfg idp' tok')"
    using ready_needs_signal [of "\<lparr>user = None, isAuthReady = False\<rparr>" "bootstrap cfg idp' tok'"]
    by (simp add: useFirebaseAuth_def)
  have f: "SetIsAuthReady \<in> set (bootstrap cfg idp' tok') \<longrightarrow>
            (\<exists>u. established_before_ready (currentUser idp') (bootstrap cfg idp' tok') = [u])"
    using one_session_before_signal [of cfg idp' tok'] by blast
  from a b c d e f show ?thesis by blast
qed

text \<open>
  A provider with no session that rejects the token and grants the anonymous session
  "anon-1": the hook ends ready, its user the anonymous session. One that rejects the
  anonymous sign-in as well: the hook ends not ready, without a user.
\<close>

theorem exchange_failure_falls_back_to_anonymous_witness:
  "currentUser \<lparr>currentUser = None, signInWithCustomToken = (\<lambda>t. None),
       signInAnonymously = Some ''anon-1''\<rparr> = None \<and>
   bootstrap True \<lparr>currentUser = None, signInWithCustomToken = (\<lambda>t. None),
       signInAnonymously = Some ''anon-1''\<rparr> (Some ''tok'') =
     [SignInRejected, ConsoleError, SignedIn (AnonymousSession ''anon-1''), SetIsAuthReady,
      SetUser (AnonymousSession ''anon-1''), SetIsAuthReady] \<and>
   useFirebaseAuth True \<lparr>currentUser = None, signInWithCustomToken = (\<lambda>t. None),
       signInAnonymously = Some ''anon-1''\<rparr> (Some ''tok'') =
     \<lparr>user = Some (AnonymousSession ''anon-1''), isAuthReady = True\<rparr> \<and>
   established_before_ready None
     (bootstrap True \<lparr>currentUser = None, signInWithCustomToken = (\<lambda>t. None),
       signInAnonymously = Some ''anon-1''\<rparr> (Some ''tok'')) =
     [AnonymousSession ''anon-1''] \<and>
   useFirebaseAuth True \<lparr>currentUser = None, signInWithCustomToken = (\<lambda>t. None),
       signInAnonymously = None\<rparr> (Some ''tok'') =
     \<lparr>user = None, isAuthReady = False\<rparr> \<and>
   useFirebaseAuth True \<lparr>currentUser = None, signInWithCustomToken = (\<lambda>t. None),
       signInAnonymously = None\<rparr> None =
     \<lparr>user = None, isAuthReady = False\<rparr>"
proof -
  let ?idp = "\<lparr>currentUser = None, signInWithCustomToken = (\<lambda>t. None),
       signInAnonymously = Some ''anon-1''\<rparr>"
  let ?off = "\<lparr>currentUser = None, signInWithCustomToken = (\<lambda>t. None),
       signInAnonymously = None\<rparr>"
  have h1: "currentUser ?idp = None" by simp
  have h2: "''tok'' \<noteq> []" by simp
  have h3: "signInWithCustomToken ?idp ''tok'' = None" by simp
  have h4: "signInAnonymously ?idp = Some ''anon-1''" by simp
  have o1: "currentUser ?off = None" by simp
  have o3: "signInWithCustomToken ?off ''tok'' = None" by simp
  have tr: "bootstrap True ?idp (Some ''tok'') =
     [SignInRejected, ConsoleError, SignedIn (AnonymousSession ''anon-1''), SetIsAuthReady,
      SetUser (AnonymousSession ''anon-1''), SetIsAuthReady]"
    by (simp add: bootstrap_def auth_callback_def anonymous_then_ready_def)
  have es: "established_before_ready None (bootstrap True ?idp (Some ''tok'')) =
     [AnonymousSession ''anon-1'']"
    unfolding tr by (simp add: established_before_ready_def)
  from exchange_failure_falls_back_to_anonymous
         [OF h1 h2 h3, of True ?idp "Some ''tok''"]
  have "useFirebaseAuth True ?idp (Some ''tok'') =
     \<lparr>user = map_option AnonymousSession (signInAnonymously ?idp),
      isAuthReady = (signInAnonymously ?idp \<noteq> None)\<rparr>"
    by blast
  then have st: "useFirebaseAuth True ?idp (Some ''tok'') =
     \<lparr>user = Some (AnonymousSession ''anon-1''), isAuthReady = True\<rparr>"
    by simp
  note off = exchange_failure_falls_back_to_anonymous
         [OF o1 h2 o3, of True ?off "Some ''tok''"]
  from off have "useFirebaseAuth True ?off (Some ''tok'') =
     \<lparr>user = map_option AnonymousSession (signInAnonymously ?off),
      isAuthReady = (signInAnonymously ?off \<noteq> None)\<rparr>"
    by blast
  then have so: "useFirebaseAuth True ?off (Some ''tok'') =
     \<lparr>user = None, isAuthReady = False\<rparr>"
    by simp
  from off have "useFirebaseAuth True ?off (Some ''tok'') = useFirebaseAuth True ?off None"
    by blast
  with so have sn: "useFirebaseAuth True ?off None = \<lparr>user = None, isAuthReady = False\<rparr>"
    by simp
  from h1 tr st es so sn show ?thesis by blast
qed

section \<open>Properties of the transforms on the store\<close>

subsection \<open>Stores that extend a store\<close>

lemma those_eq_Some: "those xs = Some ys \<longleftrightarrow> xs = map Some ys"
  by (induction xs arbitrary: ys) (auto split: option.splits)

lemma extends_refl: "heap_ok h \<Longrightarrow> extends h h"
  by (simp add: extends_def)

lemma extends_trans: "extends h h' \<Longrightarrow> extends h' h'' \<Longrightarrow> extends h h''"
  by (auto simp: extends_def)

lemma extends_alloc: "extends h0 h \<Longrightarrow> extends h0 (snd (alloc c h))"
  by (auto simp: extends_def alloc_def heap_ok_def)

lemma extends_store:
  "extends h0 h \<Longrightarrow> next_free h0 \<le> a \<Longrightarrow> a < next_free h \<Longrightarrow> extends h0 (store a c h)"
  by (auto simp: extends_def store_def heap_ok_def)

lemma allocated: "heap_ok h \<Longrightarrow> cells h p = Some c \<Longrightarrow> p < next_free h"
  unfolding heap_ok_def by (metis not_le option.distinct(1))

lemma cells_extends:
  "heap_ok h \<Longrightarrow> extends h h' \<Longrightarrow> cells h p = Some c \<Longrightarrow> cells h' p = Some c"
  using allocated [of h p c] by (simp add: extends_def)

lemma reading_at_extends:
  assumes "heap_ok h" "extends h h'" "reading_at h a = Some r"
  shows "reading_at h' a = Some r"
proof -
  from assms(3) obtain c where c: "cells h a = Some c"
    by (auto simp: reading_at_def split: option.splits)
  from cells_extends [OF assms(1,2) c] c assms(3) show ?thesis
    by (simp add: reading_at_def)
qed

lemma readings_at_extends:
  assumes "heap_ok h" "extends h h'" "readings_at h a = Some rs"
  shows "readings_at h' a = Some rs"
proof -
  from assms(3) obtain qs where qs: "arr_at h a = Some qs"
      and el: "map (reading_at h) qs = map Some rs"
    by (auto simp: readings_at_def those_eq_Some split: option.splits)
  from qs obtain c where c: "cells h a = Some c"
    by (auto simp: arr_at_def split: option.splits)
  from cells_extends [OF assms(1,2) c] c qs have qs': "arr_at h' a = Some qs"
    by (simp add: arr_at_def)
  have "\<forall>q\<in>set qs. reading_at h' q = reading_at h q"
  proof
    fix q assume "q \<in> set qs"
    then have "reading_at h q \<in> set (map (reading_at h) qs)" by simp
    with el obtain r where "reading_at h q = Some r" by auto
    with reading_at_extends [OF assms(1,2) this] show "reading_at h' q = reading_at h q"
      by simp
  qed
  then have "map (reading_at h') qs = map (reading_at h) qs" by simp
  with el qs' show ?thesis
    by (simp add: readings_at_def those_eq_Some)
qed

lemma weekly_at_extends:
  assumes "heap_ok h" "extends h h'" "weekly_at h a = Some d"
  shows "weekly_at h' a = Some d"
proof -
  from assms(3) obtain l c w rr where c: "cells h a = Some (WeeklyObj l c w rr)"
    by (auto simp: weekly_at_def split: option.splits cell.splits)
  with assms(3) obtain rs where rs: "readings_at h rr = Some rs"
      and d: "d = \<lparr>line = l, createdAt = c, weekStartDate = w, readings = rs\<rparr>"
    by (auto simp: weekly_at_def split: option.splits)
  from cells_extends [OF assms(1,2) c] readings_at_extends [OF assms(1,2) rs] d
  show ?thesis by (simp add: weekly_at_def)
qed


lemma daily_at_extends:
  assumes "heap_ok h" "extends h h'" "daily_at h a = Some d"
  shows "daily_at h' a = Some d"
proof -
  from assms(3) obtain c where c: "cells h a = Some c"
    by (auto simp: daily_at_def split: option.splits)
  from cells_extends [OF assms(1,2) c] c assms(3) show ?thesis
    by (simp add: daily_at_def)
qed

lemma daily_snapshot_extends:
  assumes "heap_ok h" "extends h h'" "daily_snapshot h a = Some ds"
  shows "daily_snapshot h' a = Some ds"
proof -
  from assms(3) obtain ps where ps: "arr_at h a = Some ps"
      and el: "map (daily_at h) ps = map Some ds"
    by (auto simp: daily_snapshot_def those_eq_Some split: option.splits)
  from ps obtain c where c: "cells h a = Some c"
    by (auto simp: arr_at_def split: option.splits)
  from cells_extends [OF assms(1,2) c] c ps have ps': "arr_at h' a = Some ps"
    by (simp add: arr_at_def)
  have "\<forall>p\<in>set ps. daily_at h' p = daily_at h p"
  proof
    fix p assume "p \<in> set ps"
    then have "daily_at h p \<in> set (map (daily_at h) ps)" by simp
    with el obtain d where "daily_at h p = Some d" by auto
    with daily_at_extends [OF assms(1,2) this] show "daily_at h' p = daily_at h p"
      by simp
  qed
  then have "map (daily_at h') ps = map (daily_at h) ps" by simp
  with el ps' show ?thesis
    by (simp add: daily_snapshot_def those_eq_Some)
qed

lemma weekly_snapshot_extends:
  assumes "heap_ok h" "extends h h'" "weekly_snapshot h a = Some ws"
  shows "weekly_snapshot h' a = Some ws"
proof -
  from assms(3) obtain ps where ps: "arr_at h a = Some ps"
      and el: "map (weekly_at h) ps = map Some ws"
    by (auto simp: weekly_snapshot_def those_eq_Some split: option.splits)
  from ps obtain c where c: "cells h a = Some c"
    by (auto simp: arr_at_def split: option.splits)
  from cells_extends [OF assms(1,2) c] c ps have ps': "arr_at h' a = Some ps"
    by (simp add: arr_at_def)
  have "\<forall>p\<in>set ps. weekly_at h' p = weekly_at h p"
  proof
    fix p assume "p \<in> set ps"
    then have "weekly_at h p \<in> set (map (weekly_at h) ps)" by simp
    with el obtain d where "weekly_at h p = Some d" by auto
    with weekly_at_extends [OF assms(1,2) this] show "weekly_at h' p = weekly_at h p"
      by simp
  qed
  then have "map (weekly_at h') ps = map (weekly_at h) ps" by simp
  with el ps' show ?thesis
    by (simp add: weekly_snapshot_def those_eq_Some)
qed


subsection \<open>The daily aggregate\<close>

lemma row_rel_keys: "list_all2 (row_rel h) dict ap \<Longrightarrow> map fst dict = map fst ap"
  by (induction rule: list_all2_induct) (auto simp: row_rel_def)

lemma row_rel_map_of_None:
  "list_all2 (row_rel h) dict ap \<Longrightarrow> (map_of dict k = None) = (map_of ap k = None)"
  using row_rel_keys [of h dict ap] by (simp add: map_of_eq_None_iff) (metis set_map)

lemma row_rel_map_of_Some:
  "list_all2 (row_rel h) dict ap \<Longrightarrow> map_of dict k = Some r \<Longrightarrow>
     \<exists>rw. map_of ap k = Some rw \<and> row_at h r = Some rw"
  by (induction rule: list_all2_induct) (auto simp: row_rel_def split: if_splits)

lemma row_rel_store:
  assumes "list_all2 (row_rel h) dict ap" and "distinct (map snd dict)"
    and "map_of dict k = Some r" and "row_at h r = Some rw"
  shows "list_all2 (row_rel (store r (RowObj (f rw)) h)) dict (modify k f ap)"
  using assms
proof (induction rule: list_all2_induct)
  case Nil
  then show ?case by simp
next
  case (Cons x xs y ys)
  obtain k0 r0 where x: "x = (k0, r0)" by (cases x)
  obtain k1 rw0 where y: "y = (k1, rw0)" by (cases y)
  from Cons.hyps(1) x y have k: "k1 = k0" and r0: "row_at h r0 = Some rw0"
    by (simp_all add: row_rel_def)
  show ?case
  proof (cases "k0 = k")
    case True
    with Cons.prems x have rr: "r = r0" by simp
    with r0 Cons.prems have rw: "rw0 = rw" by simp
    have "list_all2 (row_rel (store r (RowObj (f rw)) h)) xs ys"
    proof (rule list.rel_mono_strong [OF Cons.hyps(2)])
      fix a b assume "a \<in> set xs" "row_rel h a b"
      moreover from Cons.prems(1) x rr \<open>a \<in> set xs\<close> have "snd a \<noteq> r" by auto
      ultimately show "row_rel (store r (RowObj (f rw)) h) a b"
        by (simp add: row_rel_def row_at_def store_def)
    qed
    moreover have "row_rel (store r (RowObj (f rw)) h) x (k, f rw)"
      using x rr True by (simp add: row_rel_def row_at_def store_def)
    ultimately show ?thesis
      using True y k rw by simp
  next
    case False
    with Cons.prems x have m: "map_of xs k = Some r" by simp
    then have "r \<in> snd ` set xs" by (metis map_of_SomeD image_eqI snd_conv)
    with Cons.prems(1) x have ne: "r0 \<noteq> r" by auto
    from Cons.prems(1) have "distinct (map snd xs)" by simp
    from Cons.IH [OF this m Cons.prems(3)]
    have "list_all2 (row_rel (store r (RowObj (f rw)) h)) xs (modify k f ys)" .
    moreover have "row_rel (store r (RowObj (f rw)) h) x y"
      using x y k r0 ne by (simp add: row_rel_def row_at_def store_def)
    ultimately show ?thesis
      using False y k by simp
  qed
qed

lemma row_rel_frame:
  assumes "list_all2 (row_rel h) dict ap"
    and "\<And>r. r \<in> snd ` set dict \<Longrightarrow> cells h' r = cells h r"
  shows "list_all2 (row_rel h') dict ap"
proof (rule list.rel_mono_strong [OF assms(1)])
  fix a b assume "a \<in> set dict" "row_rel h a b"
  with assms(2) [of "snd a"] show "row_rel h' a b"
    by (simp add: row_rel_def row_at_def)
qed

lemma ensure_row_correct:
  assumes inv: "agg_inv n0 agg h0 h ap"
  shows "\<exists>h1. ensure_row agg key h = Some h1 \<and>
           agg_inv n0 agg h0 h1
             (if map_of ap key = None then ap @ [(key, new_row key)] else ap)"
proof -
  from inv obtain dict where ok: "heap_ok h" and a1: "n0 \<le> agg" and a2: "agg < next_free h"
    and fr: "\<forall>p<n0. cells h p = cells h0 p"
    and da: "dict_at h agg = Some dict" and di: "distinct (map snd dict)"
    and bd: "\<forall>r\<in>snd ` set dict. n0 \<le> r \<and> r < next_free h \<and> r \<noteq> agg"
    and rel: "list_all2 (row_rel h) dict ap"
    unfolding agg_inv_def by blast
  have same: "(map_of dict key = None) = (map_of ap key = None)"
    by (rule row_rel_map_of_None [OF rel])
  show ?thesis
  proof (cases "map_of dict key = None")
    case True
    define h1 where "h1 = store agg (Dict (dict @ [(key, next_free h)]))
               \<lparr>cells = (cells h)(next_free h \<mapsto> RowObj (new_row key)),
                next_free = Suc (next_free h)\<rparr>"
    have e: "ensure_row agg key h = Some h1"
      using da True by (simp add: ensure_row_def alloc_def h1_def)
    have "list_all2 (row_rel h1) dict ap"
      by (rule row_rel_frame [OF rel]) (use bd in \<open>auto simp: h1_def store_def\<close>)
    moreover have "row_rel h1 (key, next_free h) (key, new_row key)"
      using a2 by (simp add: row_rel_def row_at_def h1_def store_def)
    ultimately have "list_all2 (row_rel h1) (dict @ [(key, next_free h)])
                       (ap @ [(key, new_row key)])"
      by (simp add: list_all2_appendI)
    moreover have "heap_ok h1" using ok a2 by (auto simp: h1_def heap_ok_def store_def)
    moreover have "\<forall>p<n0. cells h1 p = cells h0 p"
      using fr a1 a2 by (auto simp: h1_def store_def)
    moreover have "dict_at h1 agg = Some (dict @ [(key, next_free h)])"
      by (simp add: h1_def store_def dict_at_def)
    moreover have "distinct (map snd (dict @ [(key, next_free h)]))"
      using di bd by auto
    moreover have "\<forall>r\<in>snd ` set (dict @ [(key, next_free h)]).
                     n0 \<le> r \<and> r < next_free h1 \<and> r \<noteq> agg"
      using bd a1 a2 by (auto simp: h1_def store_def)
    moreover have "agg < next_free h1" using a2 by (simp add: h1_def store_def)
    ultimately have "agg_inv n0 agg h0 h1 (ap @ [(key, new_row key)])"
      using a1 unfolding agg_inv_def by blast
    with e True same show ?thesis by simp
  next
    case False
    then have "ensure_row agg key h = Some h"
      using da by (auto simp: ensure_row_def)
    with False same inv show ?thesis by auto
  qed
qed

lemma update_row_correct:
  assumes inv: "agg_inv n0 agg h0 h ap" and k: "map_of ap key \<noteq> None"
  shows "\<exists>h1. update_row agg key f h = Some h1 \<and> agg_inv n0 agg h0 h1 (modify key f ap)"
proof -
  from inv obtain dict where ok: "heap_ok h" and a1: "n0 \<le> agg" and a2: "agg < next_free h"
    and fr: "\<forall>p<n0. cells h p = cells h0 p"
    and da: "dict_at h agg = Some dict" and di: "distinct (map snd dict)"
    and bd: "\<forall>r\<in>snd ` set dict. n0 \<le> r \<and> r < next_free h \<and> r \<noteq> agg"
    and rel: "list_all2 (row_rel h) dict ap"
    unfolding agg_inv_def by blast
  from k row_rel_map_of_None [OF rel, of key] obtain r where r: "map_of dict key = Some r"
    by auto
  from row_rel_map_of_Some [OF rel r] obtain rw where rw: "row_at h r = Some rw"
    by blast
  have rin: "r \<in> snd ` set dict"
    using r by (metis map_of_SomeD image_eqI snd_conv)
  define h1 where "h1 = store r (RowObj (f rw)) h"
  have u: "update_row agg key f h = Some h1"
    using da r rw by (simp add: update_row_def h1_def)
  have "list_all2 (row_rel h1) dict (modify key f ap)"
    unfolding h1_def by (rule row_rel_store [OF rel di r rw])
  moreover have "heap_ok h1"
    using ok bd rin by (auto simp: h1_def heap_ok_def store_def)
  moreover have "\<forall>p<n0. cells h1 p = cells h0 p"
    using fr bd rin by (auto simp: h1_def store_def)
  moreover have "dict_at h1 agg = Some dict"
    using da bd rin by (auto simp: h1_def store_def dict_at_def)
  moreover have "\<forall>r\<in>snd ` set dict. n0 \<le> r \<and> r < next_free h1 \<and> r \<noteq> agg"
    using bd by (simp add: h1_def store_def)
  moreover have "agg < next_free h1" using a2 by (simp add: h1_def store_def)
  ultimately have "agg_inv n0 agg h0 h1 (modify key f ap)"
    using a1 di unfolding agg_inv_def by blast
  with u show ?thesis by blast
qed

lemma womack_step_heap_correct:
  assumes inv: "agg_inv n0 agg h0 h ap" and d: "daily_at h0 p = Some d" and p: "p < n0"
  shows "\<exists>h'. womack_step_heap agg h p = Some h' \<and> agg_inv n0 agg h0 h' (womack_step ap d)"
proof -
  from inv have fr: "\<forall>p<n0. cells h p = cells h0 p"
    unfolding agg_inv_def by blast
  have dh: "daily_at h p = Some d"
    using fr p d by (simp add: daily_at_def)
  define key where "key = toLocaleDateString (date d)"
  define ap1 where "ap1 = (if map_of ap key = None then ap @ [(key, new_row key)] else ap)"
  from ensure_row_correct [OF inv, of key] obtain h1 where
    h1: "ensure_row agg key h = Some h1" "agg_inv n0 agg h0 h1 ap1"
    unfolding ap1_def by blast
  have k: "map_of ap1 key \<noteq> None"
    by (auto simp: ap1_def map_add_def)
  show ?thesis
  proof (cases "line d = 1")
    case True
    from update_row_correct [OF h1(2) k] True dh h1(1) show ?thesis
      by (simp add: womack_step_heap_def womack_step_def Let_def key_def [symmetric]
            ap1_def [symmetric])
  next
    case False
    show ?thesis
    proof (cases "line d = 2")
      case True
      from update_row_correct [OF h1(2) k] True dh h1(1) show ?thesis
        by (simp add: womack_step_heap_def womack_step_def Let_def key_def [symmetric]
              ap1_def [symmetric])
    next
      case False
      with \<open>line d \<noteq> 1\<close> dh h1 show ?thesis
        by (simp add: womack_step_heap_def womack_step_def Let_def key_def [symmetric]
              ap1_def [symmetric])
    qed
  qed
qed

lemma womack_loop_correct:
  assumes "agg_inv n0 agg h0 h ap" and "map (daily_at h0) ps = map Some ds"
    and "\<forall>p\<in>set ps. p < n0"
  shows "\<exists>h'. foldM (womack_step_heap agg) h ps = Some h' \<and>
              agg_inv n0 agg h0 h' (foldl womack_step ap ds)"
  using assms
proof (induction ps arbitrary: h ap ds)
  case Nil
  then show ?case by simp
next
  case (Cons p ps)
  from Cons.prems(2) obtain d ds' where ds: "ds = d # ds'" "daily_at h0 p = Some d"
    "map (daily_at h0) ps = map Some ds'"
    by (cases ds) auto
  from Cons.prems(3) have p: "p < n0" and ps: "\<forall>p\<in>set ps. p < n0" by simp_all
  from womack_step_heap_correct [OF Cons.prems(1) ds(2) p] obtain h1 where
    h1: "womack_step_heap agg h p = Some h1" "agg_inv n0 agg h0 h1 (womack_step ap d)"
    by blast
  from Cons.IH [OF h1(2) ds(3) ps] h1(1) ds(1) show ?case
    by simp
qed


lemma insort_key_map:
  "map f (insort_key (\<lambda>x. g (f x)) x xs) = insort_key g (f x) (map f xs)"
  by (induction xs) simp_all

lemma sort_key_map: "map f (sort_key (\<lambda>x. g (f x)) xs) = sort_key g (map f xs)"
  by (induction xs) (simp_all add: insort_key_map)

lemma insort_key_cong_set:
  "\<forall>y\<in>insert x (set xs). f y = g y \<Longrightarrow> insort_key f x xs = insort_key g x xs"
  by (induction xs) simp_all

lemma sort_key_cong_set: "\<forall>y\<in>set xs. f y = g y \<Longrightarrow> sort_key f xs = sort_key g xs"
proof (induction xs)
  case Nil
  show ?case by simp
next
  case (Cons x xs)
  then have "sort_key f xs = sort_key g xs" by simp
  moreover have "insort_key f x (sort_key g xs) = insort_key g x (sort_key g xs)"
    by (rule insort_key_cong_set) (use Cons.prems in simp)
  ultimately show ?case by simp
qed

lemma sorted_refs:
  assumes "map (daily_at h) ps = map Some ds"
  shows "map (daily_at h) (sort_key (time_at h) ps) = map Some (sortedData ds)"
proof -
  define f where "f = (\<lambda>p. the (daily_at h p))"
  have el: "\<forall>p\<in>set ps. daily_at h p = Some (f p)"
  proof
    fix p assume "p \<in> set ps"
    then have "daily_at h p \<in> set (map (daily_at h) ps)" by simp
    with assms have "daily_at h p \<in> Some ` set ds" by simp
    then show "daily_at h p = Some (f p)" by (auto simp: f_def)
  qed
  from arg_cong [OF assms, of "map the"] have ds: "ds = map f ps"
    by (simp add: comp_def f_def)
  have "\<forall>p\<in>set ps. time_at h p = Date_valueOf (date (f p))"
    using el by (simp add: time_at_def)
  then have s: "sort_key (time_at h) ps = sort_key (\<lambda>p. Date_valueOf (date (f p))) ps"
    by (rule sort_key_cong_set)
  have "map (daily_at h) (sort_key (time_at h) ps) = map Some (map f (sort_key (time_at h) ps))"
    using el by simp
  also have "map f (sort_key (time_at h) ps) = sortedData ds"
    unfolding s ds sortedData_def by (rule sort_key_map)
  finally show ?thesis .
qed

lemma row_rel_values:
  "list_all2 (row_rel h) dict ap \<Longrightarrow> map (row_at h) (map snd dict) = map Some (map snd ap)"
  by (induction rule: list_all2_induct) (auto simp: row_rel_def)

lemma womackChartData_heap_correct:
  assumes ok: "heap_ok h" and snap: "daily_snapshot h womackData = Some ds"
  shows "\<exists>res h'. womackChartData_heap h womackData = Some (res, h') \<and>
           extends h h' \<and> rows_at h' res = Some (womackChartData ds)"
proof -
  from snap obtain ps where ps: "arr_at h womackData = Some ps"
      and dsr: "map (daily_at h) ps = map Some ds"
    by (auto simp: daily_snapshot_def those_eq_Some split: option.splits)
  define n0 where "n0 = next_free h"
  have below: "\<forall>p\<in>set ps. p < n0"
  proof
    fix p assume "p \<in> set ps"
    then have "daily_at h p \<in> set (map (daily_at h) ps)" by simp
    with dsr have "daily_at h p \<noteq> None" by auto
    then have "cells h p \<noteq> None" by (auto simp: daily_at_def split: option.splits)
    with ok show "p < n0" unfolding heap_ok_def n0_def by (meson not_le)
  qed
  have wd: "womackData < n0"
  proof -
    from ps have "cells h womackData \<noteq> None"
      by (auto simp: arr_at_def split: option.splits)
    with ok show ?thesis unfolding heap_ok_def n0_def by (meson not_le)
  qed
  define h2 where "h2 = \<lparr>cells = (cells h)(n0 \<mapsto> Dict [], Suc n0 \<mapsto> Arr ps), next_free = Suc (Suc n0)\<rparr>"
  define refs where "refs = sort_key (time_at h2) ps"
  define h3 where "h3 = store (Suc n0) (Arr refs) h2"
  have same2: "\<forall>p<n0. daily_at h2 p = daily_at h p"
    by (simp add: h2_def daily_at_def)
  with below have "map (daily_at h2) ps = map (daily_at h) ps"
    by simp
  with dsr have d2: "map (daily_at h2) ps = map Some ds"
    by simp
  have a2: "arr_at h2 (Suc n0) = Some ps"
    by (simp add: arr_at_def h2_def)
  have t2: "those (map (daily_at h2) ps) = Some ds"
    using d2 by (simp add: those_eq_Some)
  have sip: "sort_in_place (Suc n0) h2 = Some h3"
    using a2 t2 by (simp add: sort_in_place_def h3_def refs_def)
  have rb: "\<forall>p\<in>set refs. p < n0" using below by (simp add: refs_def)
  with same2 have "map (daily_at h2) refs = map (daily_at h) refs"
    by simp
  moreover have "map (daily_at h2) refs = map Some (sortedData ds)"
    unfolding refs_def by (rule sorted_refs [OF d2])
  ultimately have dr: "map (daily_at h) refs = map Some (sortedData ds)"
    by simp
  have inv3: "agg_inv n0 n0 h h3 []"
    using ok by (auto simp: agg_inv_def h3_def h2_def store_def heap_ok_def dict_at_def n0_def)
  from womack_loop_correct [OF inv3 dr rb] obtain h4 where
    loop: "foldM (womack_step_heap n0) h3 refs = Some h4"
    and inv4: "agg_inv n0 n0 h h4 (aggregatedData ds)"
    unfolding aggregatedData_def by blast
  from inv4 obtain dict where ok4: "heap_ok h4"
    and fr4: "\<forall>p<n0. cells h4 p = cells h p"
    and da4: "dict_at h4 n0 = Some dict"
    and bd4: "\<forall>r\<in>snd ` set dict. n0 \<le> r \<and> r < next_free h4 \<and> r \<noteq> n0"
    and rel4: "list_all2 (row_rel h4) dict (aggregatedData ds)"
    unfolding agg_inv_def by blast
  define n4 where "n4 = next_free h4"
  define h6 where "h6 = \<lparr>cells = (cells h4)(n4 \<mapsto> Arr (map snd dict),
      Suc n4 \<mapsto> Arr (slice_last 7 (map snd dict))), next_free = Suc (Suc n4)\<rparr>"
  have n04: "n0 < n4" using inv4 unfolding agg_inv_def n4_def by simp
  have run: "womackChartData_heap h womackData = Some (Suc n4, h6)"
    using ps sip loop da4
    by (simp add: womackChartData_heap_def alloc_def Let_def n0_def [symmetric]
          h2_def [symmetric] h3_def arr_at_def store_def n4_def [symmetric] h6_def)
  have "heap_ok h6"
    using ok4 by (auto simp: h6_def heap_ok_def n4_def)
  then have frame: "extends h h6"
    using fr4 n04 by (auto simp: extends_def h6_def n0_def)
  have "\<forall>r\<in>snd ` set dict. row_at h6 r = row_at h4 r"
    using bd4 by (auto simp: h6_def row_at_def n4_def)
  then have "map (row_at h6) (map snd dict) = map (row_at h4) (map snd dict)"
    by simp
  with row_rel_values [OF rel4]
  have vals: "map (row_at h6) (map snd dict) = map Some (map snd (aggregatedData ds))"
    by simp
  have "map (row_at h6) (slice_last 7 (map snd dict)) =
        slice_last 7 (map (row_at h6) (map snd dict))"
    by (simp add: slice_last_def drop_map)
  also have "\<dots> = map Some (womackChartData ds)"
    unfolding vals by (simp add: slice_last_def womackChartData_def drop_map)
  finally have "rows_at h6 (Suc n4) = Some (womackChartData ds)"
    by (simp add: rows_at_def arr_at_def h6_def those_eq_Some)
  with run frame show ?thesis by blast
qed


subsection \<open>The weekly comparison\<close>

lemma latest_step_heap_correct:
  assumes ok0: "heap_ok h0" and inv: "latest_inv h0 latest h L"
    and d: "weekly_at h0 p = Some d"
  shows "\<exists>h'. latest_step_heap latest h p = Some h' \<and> latest_inv h0 latest h' (latest_step L d)"
proof -
  from inv obtain dict where ext: "extends h0 h" and l1: "next_free h0 \<le> latest"
    and l2: "latest < next_free h" and ld: "linedict_at h latest = Some dict"
    and abs: "\<forall>l. L l = (case map_of dict l of None \<Rightarrow> None | Some q \<Rightarrow> weekly_at h0 q)"
    and def: "\<forall>l q. map_of dict l = Some q \<longrightarrow> weekly_at h0 q \<noteq> None"
    unfolding latest_inv_def by blast
  have dh: "weekly_at h p = Some d"
    by (rule weekly_at_extends [OF ok0 ext d])
  define h1 where "h1 = store latest (LineDict ((line d, p) # dict)) h"
  have inv1: "latest_inv h0 latest h1 (L(line d \<mapsto> d))"
  proof -
    have "extends h0 h1" unfolding h1_def by (rule extends_store [OF ext l1 l2])
    moreover have "latest < next_free h1" using l2 by (simp add: h1_def store_def)
    moreover have "linedict_at h1 latest = Some ((line d, p) # dict)"
      by (simp add: h1_def store_def linedict_at_def)
    moreover have "\<forall>l. (L(line d \<mapsto> d)) l =
        (case map_of ((line d, p) # dict) l of None \<Rightarrow> None | Some q \<Rightarrow> weekly_at h0 q)"
      using abs d by simp
    moreover have "\<forall>l q. map_of ((line d, p) # dict) l = Some q \<longrightarrow> weekly_at h0 q \<noteq> None"
      using def d by simp
    ultimately show ?thesis using l1 unfolding latest_inv_def by blast
  qed
  show ?thesis
  proof (cases "map_of dict (line d)")
    case None
    with abs have "L (line d) = None" by simp
    with None dh ld inv1 show ?thesis
      by (simp add: latest_step_heap_def latest_step_def h1_def)
  next
    case (Some q)
    with def obtain cur where cur: "weekly_at h0 q = Some cur" by blast
    have curh: "weekly_at h q = Some cur"
      by (rule weekly_at_extends [OF ok0 ext cur])
    from abs Some cur have Lc: "L (line d) = Some cur" by simp
    show ?thesis
    proof (cases "Date_valueOf (weekStartDate d) > Date_valueOf (weekStartDate cur)")
      case True
      with Some dh ld curh Lc inv1 show ?thesis
        by (simp add: latest_step_heap_def latest_step_def h1_def)
    next
      case False
      with Some dh ld curh Lc inv show ?thesis
        by (simp add: latest_step_heap_def latest_step_def)
    qed
  qed
qed

lemma latest_loop_correct:
  assumes "heap_ok h0" and "latest_inv h0 latest h L"
    and "map (weekly_at h0) ps = map Some ws"
  shows "\<exists>h'. foldM (latest_step_heap latest) h ps = Some h' \<and>
              latest_inv h0 latest h' (foldl latest_step L ws)"
  using assms(2,3)
proof (induction ps arbitrary: h L ws)
  case Nil
  then show ?case by simp
next
  case (Cons p ps)
  from Cons.prems(2) obtain d ws' where ws: "ws = d # ws'" "weekly_at h0 p = Some d"
    "map (weekly_at h0) ps = map Some ws'"
    by (cases ws) auto
  from latest_step_heap_correct [OF assms(1) Cons.prems(1) ws(2)] obtain h1 where
    h1: "latest_step_heap latest h p = Some h1" "latest_inv h0 latest h1 (latest_step L d)"
    by blast
  from Cons.IH [OF h1(2) ws(3)] h1(1) ws(1) show ?case
    by simp
qed

lemma lineData_heap_correct:
  assumes ok0: "heap_ok h0" and inv: "latest_inv h0 latest h L"
  shows "\<exists>r h'. lineData_heap latest l h = Some (r, h') \<and> latest_inv h0 latest h' L \<and>
           readings_at h' r = Some (case L l of None \<Rightarrow> [] | Some d \<Rightarrow> readings d)"
proof -
  from inv obtain dict where ext: "extends h0 h" and l1: "next_free h0 \<le> latest"
    and l2: "latest < next_free h" and ld: "linedict_at h latest = Some dict"
    and abs: "\<forall>l. L l = (case map_of dict l of None \<Rightarrow> None | Some q \<Rightarrow> weekly_at h0 q)"
    and def: "\<forall>l q. map_of dict l = Some q \<longrightarrow> weekly_at h0 q \<noteq> None"
    unfolding latest_inv_def by blast
  show ?thesis
  proof (cases "map_of dict l")
    case None
    define h1 where "h1 = snd (alloc (Arr []) h)"
    have run: "lineData_heap latest l h = Some (next_free h, h1)"
      using ld None by (simp add: lineData_heap_def h1_def alloc_def)
    have "extends h0 h1" unfolding h1_def by (rule extends_alloc [OF ext])
    moreover have "latest < next_free h1" using l2 by (simp add: h1_def alloc_def)
    moreover have "linedict_at h1 latest = Some dict"
      using ld l2 by (simp add: h1_def alloc_def linedict_at_def)
    ultimately have "latest_inv h0 latest h1 L"
      using l1 abs def unfolding latest_inv_def by blast
    moreover have "readings_at h1 (next_free h) = Some []"
      by (simp add: h1_def alloc_def readings_at_def arr_at_def)
    moreover from abs None have "L l = None" by simp
    ultimately show ?thesis using run by simp
  next
    case (Some q)
    with def obtain d where d: "weekly_at h0 q = Some d" by blast
    then obtain ln c w rr where c: "cells h0 q = Some (WeeklyObj ln c w rr)"
      by (auto simp: weekly_at_def split: option.splits cell.splits)
    with d have rs: "readings_at h0 rr = Some (readings d)"
      by (auto simp: weekly_at_def split: option.splits)
    from cells_extends [OF ok0 ext c] have "readings_ref h q = Some rr"
      by (simp add: readings_ref_def)
    with ld Some have run: "lineData_heap latest l h = Some (rr, h)"
      by (simp add: lineData_heap_def)
    from abs Some d have "L l = Some d" by simp
    with run inv readings_at_extends [OF ok0 ext rs] show ?thesis by simp
  qed
qed

lemma machineIds_heap_correct:
  assumes "heap_ok h" and "readings_at h r = Some rs"
  shows "machineIds_heap r h = Some (next_free h, snd (alloc (Nums (map machineId rs)) h)) \<and>
         extends h (snd (alloc (Nums (map machineId rs)) h)) \<and>
         nums_at (snd (alloc (Nums (map machineId rs)) h)) (next_free h) =
           Some (map machineId rs)"
  using assms extends_alloc [OF extends_refl [OF assms(1)]]
  by (simp add: machineIds_heap_def alloc_def nums_at_def)

lemma nums_at_extends:
  assumes "heap_ok h" "extends h h'" "nums_at h a = Some ns"
  shows "nums_at h' a = Some ns"
proof -
  from assms(3) obtain c where c: "cells h a = Some c"
    by (auto simp: nums_at_def split: option.splits)
  from cells_extends [OF assms(1,2) c] c assms(3) show ?thesis
    by (simp add: nums_at_def)
qed

lemma allMachines_heap_correct:
  assumes ok: "heap_ok h" and r1: "readings_at h r1 = Some rs1"
    and r2: "readings_at h r2 = Some rs2"
  shows "\<exists>ms h'. allMachines_heap r1 r2 h = Some (ms, h') \<and> extends h h' \<and>
           nums_at h' ms = Some (allMachines rs1 rs2)"
proof -
  define h1 where "h1 = snd (alloc (Nums (map machineId rs1)) h)"
  from machineIds_heap_correct [OF ok r1]
  have m1: "machineIds_heap r1 h = Some (next_free h, h1)" and e1: "extends h h1"
    and n1: "nums_at h1 (next_free h) = Some (map machineId rs1)"
    by (simp_all add: h1_def)
  have ok1: "heap_ok h1" using e1 by (simp add: extends_def)
  have r21: "readings_at h1 r2 = Some rs2"
    by (rule readings_at_extends [OF ok e1 r2])
  define h2 where "h2 = snd (alloc (Nums (map machineId rs2)) h1)"
  from machineIds_heap_correct [OF ok1 r21]
  have m2: "machineIds_heap r2 h1 = Some (next_free h1, h2)" and e2: "extends h1 h2"
    and n2: "nums_at h2 (next_free h1) = Some (map machineId rs2)"
    by (simp_all add: h2_def)
  have ok2: "heap_ok h2" using e2 by (simp add: extends_def)
  have n12: "nums_at h2 (next_free h) = Some (map machineId rs1)"
    by (rule nums_at_extends [OF ok1 e2 n1])
  define ns where "ns = map machineId rs1 @ map machineId rs2"
  define h5 where "h5 = snd (alloc (Nums (new_Set ns))
      (snd (alloc (Nums (new_Set ns)) (snd (alloc (Nums ns) h2)))))"
  define ms where "ms = Suc (Suc (next_free h2))"
  define h6 where "h6 = store ms (Nums (sort (new_Set ns))) h5"
  have run: "allMachines_heap r1 r2 h = Some (ms, h6)"
    using m1 m2 n12 n2
    by (simp add: allMachines_heap_def Let_def alloc_def ns_def h5_def ms_def h6_def)
  have e5: "extends h2 h5"
    unfolding h5_def by (intro extends_alloc extends_refl ok2)
  have "next_free h5 = Suc (Suc (Suc (next_free h2)))"
    by (simp add: h5_def alloc_def)
  then have e6: "extends h2 h6"
    unfolding h6_def by (intro extends_store [OF e5]) (simp_all add: ms_def)
  have "nums_at h6 ms = Some (allMachines rs1 rs2)"
    by (simp add: h6_def store_def nums_at_def allMachines_def ns_def)
  with run extends_trans [OF extends_trans [OF e1 e2] e6] show ?thesis by blast
qed

lemma bar_at_extends:
  assumes "heap_ok h" "extends h h'" "bar_at h a = Some b"
  shows "bar_at h' a = Some b"
proof -
  from assms(3) obtain c where c: "cells h a = Some c"
    by (auto simp: bar_at_def split: option.splits)
  from cells_extends [OF assms(1,2) c] c assms(3) show ?thesis
    by (simp add: bar_at_def)
qed

lemma bar_loop_correct:
  assumes "heap_ok h" and "readings_at h r1 = Some rs1" and "readings_at h r2 = Some rs2"
    and "map (bar_at h) acc = map Some accv"
  shows "\<exists>bars h'. foldM (bar_step_heap r1 r2) (acc, h) ns = Some (bars, h') \<and> extends h h' \<and>
           map (bar_at h') bars = map Some (accv @ map (bar_of rs1 rs2) ns)"
  using assms
proof (induction ns arbitrary: acc accv h)
  case Nil
  then show ?case by (simp add: extends_refl)
next
  case (Cons m ns)
  define h1 where "h1 = snd (alloc (BarObj (bar_of rs1 rs2 m)) h)"
  have e1: "extends h h1"
    unfolding h1_def by (intro extends_alloc extends_refl Cons.prems(1))
  have ok1: "heap_ok h1" using e1 by (simp add: extends_def)
  have st: "bar_step_heap r1 r2 (acc, h) m = Some (acc @ [next_free h], h1)"
    using Cons.prems(2,3) by (simp add: bar_step_heap_def alloc_def h1_def)
  have "\<forall>b\<in>set acc. bar_at h1 b = bar_at h b"
  proof
    fix b assume "b \<in> set acc"
    then have "bar_at h b \<in> set (map (bar_at h) acc)" by simp
    with Cons.prems(4) obtain v where "bar_at h b = Some v" by auto
    with bar_at_extends [OF Cons.prems(1) e1 this] show "bar_at h1 b = bar_at h b" by simp
  qed
  then have "map (bar_at h1) acc = map (bar_at h) acc" by simp
  moreover have "bar_at h1 (next_free h) = Some (bar_of rs1 rs2 m)"
    by (simp add: h1_def alloc_def bar_at_def)
  ultimately have acc1: "map (bar_at h1) (acc @ [next_free h]) =
      map Some (accv @ [bar_of rs1 rs2 m])"
    using Cons.prems(4) by simp
  from Cons.IH [OF ok1 readings_at_extends [OF Cons.prems(1) e1 Cons.prems(2)]
      readings_at_extends [OF Cons.prems(1) e1 Cons.prems(3)] acc1]
  obtain bars h' where r: "foldM (bar_step_heap r1 r2) (acc @ [next_free h], h1) ns = Some (bars, h')"
    "extends h1 h'" "map (bar_at h') bars = map Some ((accv @ [bar_of rs1 rs2 m]) @ map (bar_of rs1 rs2) ns)"
    by blast
  from r st extends_trans [OF e1 r(2)] show ?case by simp
qed

lemma bodymakerChartData_heap_correct:
  assumes ok: "heap_ok h" and snap: "weekly_snapshot h bodymakerData = Some ws"
  shows "\<exists>res h'. bodymakerChartData_heap h bodymakerData = Some (res, h') \<and>
           extends h h' \<and> bars_at h' res = Some (bodymakerChartData ws)"
proof -
  from snap obtain ps where ps: "arr_at h bodymakerData = Some ps"
      and wsr: "map (weekly_at h) ps = map Some ws"
    by (auto simp: weekly_snapshot_def those_eq_Some split: option.splits)
  define h1 where "h1 = snd (alloc (LineDict []) h)"
  define latest where "latest = next_free h"
  have inv1: "latest_inv h latest h1 (\<lambda>l. None)"
    using extends_alloc [OF extends_refl [OF ok], of "LineDict []"]
    by (simp add: latest_inv_def h1_def latest_def alloc_def linedict_at_def)
  from latest_loop_correct [OF ok inv1 wsr] obtain h2 where
    loop: "foldM (latest_step_heap latest) h1 ps = Some h2"
    and inv2: "latest_inv h latest h2 (latestWeekData ws)"
    unfolding latestWeekData_def by blast
  from lineData_heap_correct [OF ok inv2, of 1] obtain r1 h3 where
    l1: "lineData_heap latest 1 h2 = Some (r1, h3)" and inv3: "latest_inv h latest h3 (latestWeekData ws)"
    and rs1: "readings_at h3 r1 = Some (lineData 1 ws)"
    unfolding lineData_def by blast
  from lineData_heap_correct [OF ok inv3, of 2] obtain r2 h4 where
    l2: "lineData_heap latest 2 h3 = Some (r2, h4)" and inv4: "latest_inv h latest h4 (latestWeekData ws)"
    and rs2: "readings_at h4 r2 = Some (lineData 2 ws)"
    unfolding lineData_def by blast
  have e3: "extends h h3" and e4: "extends h h4"
    using inv3 inv4 by (simp_all add: latest_inv_def)
  have ok3: "heap_ok h3" and ok4: "heap_ok h4"
    using e3 e4 by (simp_all add: extends_def)
  have e34: "extends h3 h4"
  proof (cases "h4 = h3")
    case True
    with ok3 show ?thesis by (simp add: extends_refl)
  next
    case False
    with l2 have "h4 = snd (alloc (Arr []) h3)"
      by (auto simp: lineData_heap_def split: option.splits)
    with ok3 show ?thesis by (simp add: extends_alloc extends_refl)
  qed
  have rs14: "readings_at h4 r1 = Some (lineData 1 ws)"
    by (rule readings_at_extends [OF ok3 e34 rs1])
  from allMachines_heap_correct [OF ok4 rs14 rs2] obtain ms h5 where
    am: "allMachines_heap r1 r2 h4 = Some (ms, h5)" and e5: "extends h4 h5"
    and ns: "nums_at h5 ms = Some (allMachines (lineData 1 ws) (lineData 2 ws))"
    by blast
  have ok5: "heap_ok h5" using e5 by (simp add: extends_def)
  from bar_loop_correct [OF ok5 readings_at_extends [OF ok4 e5 rs14]
      readings_at_extends [OF ok4 e5 rs2], of "[]" "[]"
      "allMachines (lineData 1 ws) (lineData 2 ws)"]
  obtain bars h6 where
    bl: "foldM (bar_step_heap r1 r2) ([], h5) (allMachines (lineData 1 ws) (lineData 2 ws)) =
           Some (bars, h6)"
    and e6: "extends h5 h6"
    and bv: "map (bar_at h6) bars = map Some (bodymakerChartData ws)"
    by (auto simp: bodymakerChartData_def Let_def)
  have ok6: "heap_ok h6" using e6 by (simp add: extends_def)
  define h7 where "h7 = snd (alloc (Arr bars) h6)"
  have e7: "extends h6 h7"
    unfolding h7_def by (intro extends_alloc extends_refl ok6)
  have run: "bodymakerChartData_heap h bodymakerData = Some (next_free h6, h7)"
    using ps loop l1 l2 am ns bl
    by (simp add: bodymakerChartData_heap_def Let_def alloc_def latest_def h1_def h7_def)
  have "\<forall>b\<in>set bars. bar_at h7 b = bar_at h6 b"
  proof
    fix b assume "b \<in> set bars"
    then have "bar_at h6 b \<in> set (map (bar_at h6) bars)" by simp
    with bv obtain v where "bar_at h6 b = Some v" by auto
    with bar_at_extends [OF ok6 e7 this] show "bar_at h7 b = bar_at h6 b" by simp
  qed
  then have "map (bar_at h7) bars = map (bar_at h6) bars" by simp
  with bv have "bars_at h7 (next_free h6) = Some (bodymakerChartData ws)"
    by (simp add: bars_at_def arr_at_def h7_def alloc_def those_eq_Some)
  moreover have "extends h h7"
    by (rule extends_trans [OF extends_trans [OF extends_trans [OF e4 e5] e6] e7])
  ultimately show ?thesis
    using run by blast
qed


subsection \<open>The claim\<close>

text \<open>
  Claim C9. Run on a store that holds the two snapshots, each transform returns, and
  what it returns is the value of the function \<open>womackChartData\<close> (or
  \<open>bodymakerChartData\<close>) of the content of its snapshot alone: two evaluations on
  snapshots of equal content, in whatever stores and at whatever addresses, return equal
  rows, also when two weekly records share a week. And neither transform changes a cell
  that existed before it ran: the input arrays, their records and the readings of the
  records are as they were, and both snapshots read the same afterwards.
\<close>

theorem transforms_deterministic_input_unchanged:
  assumes "heap_ok h" and "heap_ok g"
    and "daily_snapshot h womackData = Some ds"
    and "daily_snapshot g womackData' = Some ds"
    and "weekly_snapshot h bodymakerData = Some ws"
    and "weekly_snapshot g bodymakerData' = Some ws"
  shows "(\<exists>r h' s g'.
            womackChartData_heap h womackData = Some (r, h') \<and>
            womackChartData_heap g womackData' = Some (s, g') \<and>
            rows_at h' r = Some (womackChartData ds) \<and>
            rows_at g' s = rows_at h' r \<and>
            (\<forall>p<next_free h. cells h' p = cells h p) \<and>
            daily_snapshot h' womackData = Some ds \<and>
            weekly_snapshot h' bodymakerData = Some ws) \<and>
         (\<exists>r h' s g'.
            bodymakerChartData_heap h bodymakerData = Some (r, h') \<and>
            bodymakerChartData_heap g bodymakerData' = Some (s, g') \<and>
            bars_at h' r = Some (bodymakerChartData ws) \<and>
            bars_at g' s = bars_at h' r \<and>
            (\<forall>p<next_free h. cells h' p = cells h p) \<and>
            daily_snapshot h' womackData = Some ds \<and>
            weekly_snapshot h' bodymakerData = Some ws)"
proof
  from womackChartData_heap_correct [OF assms(1,3)] obtain r h' where
    a: "womackChartData_heap h womackData = Some (r, h')" "extends h h'"
       "rows_at h' r = Some (womackChartData ds)"
    by blast
  from womackChartData_heap_correct [OF assms(2,4)] obtain s g' where
    b: "womackChartData_heap g womackData' = Some (s, g')"
       "rows_at g' s = Some (womackChartData ds)"
    by blast
  from a(2) have "\<forall>p<next_free h. cells h' p = cells h p"
    by (simp add: extends_def)
  with a b daily_snapshot_extends [OF assms(1) a(2) assms(3)]
    weekly_snapshot_extends [OF assms(1) a(2) assms(5)]
  show "\<exists>r h' s g'.
            womackChartData_heap h womackData = Some (r, h') \<and>
            womackChartData_heap g womackData' = Some (s, g') \<and>
            rows_at h' r = Some (womackChartData ds) \<and>
            rows_at g' s = rows_at h' r \<and>
            (\<forall>p<next_free h. cells h' p = cells h p) \<and>
            daily_snapshot h' womackData = Some ds \<and>
            weekly_snapshot h' bodymakerData = Some ws"
    by auto
next
  from bodymakerChartData_heap_correct [OF assms(1,5)] obtain r h' where
    a: "bodymakerChartData_heap h bodymakerData = Some (r, h')" "extends h h'"
       "bars_at h' r = Some (bodymakerChartData ws)"
    by blast
  from bodymakerChartData_heap_correct [OF assms(2,6)] obtain s g' where
    b: "bodymakerChartData_heap g bodymakerData' = Some (s, g')"
       "bars_at g' s = Some (bodymakerChartData ws)"
    by blast
  from a(2) have "\<forall>p<next_free h. cells h' p = cells h p"
    by (simp add: extends_def)
  with a b daily_snapshot_extends [OF assms(1) a(2) assms(3)]
    weekly_snapshot_extends [OF assms(1) a(2) assms(5)]
  show "\<exists>r h' s g'.
            bodymakerChartData_heap h bodymakerData = Some (r, h') \<and>
            bodymakerChartData_heap g bodymakerData' = Some (s, g') \<and>
            bars_at h' r = Some (bodymakerChartData ws) \<and>
            bars_at g' s = bars_at h' r \<and>
            (\<forall>p<next_free h. cells h' p = cells h p) \<and>
            daily_snapshot h' womackData = Some ds \<and>
            weekly_snapshot h' bodymakerData = Some ws"
    by auto
qed

text \<open>
  The two example stores hold the same readings, laid out differently. On both, the
  transforms return the same rows; the two weekly records of line 1 share their week,
  and the chart shows the first.
\<close>

theorem transforms_deterministic_input_unchanged_witness:
  "heap_ok store_A \<and> heap_ok store_B \<and>
   daily_snapshot store_A 0 =
     Some [daily 2025 1 5 1 50 10, daily 2024 1 5 1 100 40, daily 2024 1 6 2 30 5] \<and>
   daily_snapshot store_B 11 =
     Some [daily 2025 1 5 1 50 10, daily 2024 1 5 1 100 40, daily 2024 1 6 2 30 5] \<and>
   weekly_snapshot store_A 4 =
     Some [weekly 2024 1 8 1 [(12, 3), (11, 5)], weekly 2024 1 8 1 [(11, 9)]] \<and>
   weekly_snapshot store_B 7 =
     Some [weekly 2024 1 8 1 [(12, 3), (11, 5)], weekly 2024 1 8 1 [(11, 9)]] \<and>
   (\<exists>r h' s g'.
      womackChartData_heap store_A 0 = Some (r, h') \<and>
      womackChartData_heap store_B 11 = Some (s, g') \<and>
      rows_at h' r = Some [row ''5 ene'' 150 0 50 0, row ''6 ene'' 0 30 0 5] \<and>
      rows_at g' s = rows_at h' r \<and>
      cells h' 0 = Some (Arr [2, 1, 3]) \<and>
      daily_snapshot h' 0 = daily_snapshot store_A 0) \<and>
   (\<exists>r h' s g'.
      bodymakerChartData_heap store_A 4 = Some (r, h') \<and>
      bodymakerChartData_heap store_B 7 = Some (s, g') \<and>
      bars_at h' r = Some [bar ''BM 11'' 5 0, bar ''BM 12'' 3 0] \<and>
      bars_at g' s = bars_at h' r \<and>
      cells h' 7 = Some (Arr [9, 10]) \<and>
      weekly_snapshot h' 4 = weekly_snapshot store_A 4)"
proof -
  let ?ds = "[daily 2025 1 5 1 50 10, daily 2024 1 5 1 100 40, daily 2024 1 6 2 30 5]"
  let ?ws = "[weekly 2024 1 8 1 [(12, 3), (11, 5)], weekly 2024 1 8 1 [(11, 9)]]"
  have okA: "heap_ok store_A" by (auto simp: heap_ok_def store_A_def)
  have okB: "heap_ok store_B" by (auto simp: heap_ok_def store_B_def)
  have dA: "daily_snapshot store_A 0 = Some ?ds" by code_simp
  have dB: "daily_snapshot store_B 11 = Some ?ds" by code_simp
  have wA: "weekly_snapshot store_A 4 = Some ?ws" by code_simp
  have wB: "weekly_snapshot store_B 7 = Some ?ws" by code_simp
  have rows: "womackChartData ?ds = [row ''5 ene'' 150 0 50 0, row ''6 ene'' 0 30 0 5]"
    by code_simp
  have bars: "bodymakerChartData ?ws = [bar ''BM 11'' 5 0, bar ''BM 12'' 3 0]"
    by code_simp
  have c0: "cells store_A 0 = Some (Arr [2, 1, 3])" "cells store_A 7 = Some (Arr [9, 10])"
    by (simp_all add: store_A_def)
  have n: "next_free store_A = 12" by (simp add: store_A_def)
  note T = transforms_deterministic_input_unchanged [OF okA okB dA dB wA wB]
  from T obtain r h' s g' where
    "womackChartData_heap store_A 0 = Some (r, h')"
    "womackChartData_heap store_B 11 = Some (s, g')"
    "rows_at h' r = Some (womackChartData ?ds)"
    "rows_at g' s = rows_at h' r"
    "\<forall>p<next_free store_A. cells h' p = cells store_A p"
    "daily_snapshot h' 0 = Some ?ds"
    by blast
  then have first: "\<exists>r h' s g'.
      womackChartData_heap store_A 0 = Some (r, h') \<and>
      womackChartData_heap store_B 11 = Some (s, g') \<and>
      rows_at h' r = Some [row ''5 ene'' 150 0 50 0, row ''6 ene'' 0 30 0 5] \<and>
      rows_at g' s = rows_at h' r \<and>
      cells h' 0 = Some (Arr [2, 1, 3]) \<and>
      daily_snapshot h' 0 = daily_snapshot store_A 0"
    using rows c0 n dA by auto
  from T obtain r h' s g' where
    "bodymakerChartData_heap store_A 4 = Some (r, h')"
    "bodymakerChartData_heap store_B 7 = Some (s, g')"
    "bars_at h' r = Some (bodymakerChartData ?ws)"
    "bars_at g' s = bars_at h' r"
    "\<forall>p<next_free store_A. cells h' p = cells store_A p"
    "weekly_snapshot h' 4 = Some ?ws"
    by blast
  then have second: "\<exists>r h' s g'.
      bodymakerChartData_heap store_A 4 = Some (r, h') \<and>
      bodymakerChartData_heap store_B 7 = Some (s, g') \<and>
      bars_at h' r = Some [bar ''BM 11'' 5 0, bar ''BM 12'' 3 0] \<and>
      bars_at g' s = bars_at h' r \<and>
      cells h' 7 = Some (Arr [9, 10]) \<and>
      weekly_snapshot h' 4 = weekly_snapshot store_A 4"
    using bars c0 n wA by auto
  from okA okB dA dB wA wB first second show ?thesis
    by blast
qed

end
